theory Spec2Isabelle
  imports
    Main
    "HOL-Library.Char_ord"
    "HOL-Library.List_Lexorder"
    "HOL-Library.Extended_Nat"
    "HOL-Library.AList"
    "HOL-Library.Multiset"
    "HOL-Library.Word"
begin

section \<open>JavaScript values\<close>

text \<open>
  The values that are put into a set. \<open>JNum n\<close> is the integral Number \<open>sint n\<close>: the
  54-bit signed words are the integers from \<open>-2^53\<close> to \<open>2^53 - 1\<close>, each of which is a
  Number that JavaScript holds exactly and prints in plain decimal (larger Numbers, which
  it rounds and from \<open>1e21\<close> on prints with an exponent, and fractions are not values of
  the model). Strings are lists of 8-bit characters, compared by character code as
  JavaScript compares code units. \<open>JObject ts fields\<close> is a
  plain object: \<open>ts = Some s\<close> when it carries a \<open>toString\<close> method, \<open>s\<close> being what that
  method returns on this object; \<open>ts = None\<close> when it inherits \<open>Object.prototype.toString\<close>.
  \<open>JWrapper obj ts\<close> is an instance of \<open>Wrapper\<close> (src/swiftSet.js, 424-429): \<open>obj\<close> is
  its \<open>item\<close>; \<open>ts = Some s\<close> when a caller-supplied \<open>toStr\<close> was installed, \<open>s\<close> being
  what it returns on this wrapper, and \<open>ts = None\<close> when the built-in closure is its
  \<open>toString\<close>.
\<close>

datatype jsval =
    JNull
  | JUndefined
  | JBool bool
  | JNum "54 word"
  | JStr string
  | JArray "jsval list"
  | JObject "string option" "(string \<times> jsval) list"
  | JWrapper jsval "string option"

text \<open>
  An integer in plain decimal, with a sign: JavaScript's string of an integral Number
  between \<open>-2^53\<close> and \<open>2^53\<close>, which is where \<open>toStr\<close> uses it.
\<close>

definition digit_char :: "nat \<Rightarrow> char" where
  "digit_char d = char_of (48 + d)"

fun nat_to_str :: "nat \<Rightarrow> string" where
  "nat_to_str n = (if n < 10 then [digit_char n] else nat_to_str (n div 10) @ [digit_char (n mod 10)])"

declare nat_to_str.simps [simp del]

definition num_to_str :: "int \<Rightarrow> string" where
  "num_to_str i = (if i < 0 then CHR ''-'' # nat_to_str (nat (- i)) else nat_to_str (nat i))"

text \<open>
  \<open>typeOf\<close> (390-396): the class name that \<open>Object.prototype.toString\<close> reports. A
  \<open>Wrapper\<close> instance is an \<open>Object\<close>.
\<close>

fun typeOf :: "jsval \<Rightarrow> string" where
  "typeOf JNull = ''Null''"
| "typeOf JUndefined = ''Undefined''"
| "typeOf (JBool b) = ''Boolean''"
| "typeOf (JNum n) = ''Number''"
| "typeOf (JStr s) = ''String''"
| "typeOf (JArray xs) = ''Array''"
| "typeOf (JObject ts fs) = ''Object''"
| "typeOf (JWrapper obj ts) = ''Object''"

text \<open>\<open>encodeObjType\<close> (399-421): the list of built-in types and the dictionary of codes.\<close>

definition types :: "string list" where
  "types = [''Null'', ''Undefined'', ''Array'', ''Boolean'', ''Number'', ''String'', ''Object'',
    ''Function'', ''Date'', ''Error'', ''RegExp'', ''Arguments'', ''Math'', ''JSON'']"

definition codes :: "string \<Rightarrow> nat option" where
  "codes = map_of (zip types [0 ..< length types])"

definition encodeObjType :: "jsval \<Rightarrow> jsval" where
  "encodeObjType obj =
     (let type = typeOf obj in
      case codes type of None \<Rightarrow> JStr type | Some code \<Rightarrow> JNum (of_nat code))"

text \<open>
  JavaScript's conversion of a value to a string, which is what a property access
  \<open>hist[key]\<close> and a concatenation \<open>key + ':'\<close> apply to a value. An Array joins its
  elements with commas, \<open>null\<close> and \<open>undefined\<close> elements giving the empty string. The
  built-in \<open>toString\<close> of a \<open>Wrapper\<close> is line 427.
\<close>

fun join :: "string \<Rightarrow> string list \<Rightarrow> string" where
  "join sep [] = []"
| "join sep [x] = x"
| "join sep (x # y # ys) = x @ sep @ join sep (y # ys)"

function toStr :: "jsval \<Rightarrow> string" where
  "toStr JNull = ''null''"
| "toStr JUndefined = ''undefined''"
| "toStr (JBool b) = (if b then ''true'' else ''false'')"
| "toStr (JNum n) = num_to_str (sint n)"
| "toStr (JStr s) = s"
| "toStr (JArray xs) =
     join '','' (map (\<lambda>x. if x = JNull \<or> x = JUndefined then [] else toStr x) xs)"
| "toStr (JObject ts fs) = (case ts of None \<Rightarrow> ''[object Object]'' | Some s \<Rightarrow> s)"
| "toStr (JWrapper obj ts) =
     (case ts of
        None \<Rightarrow> ''('' @ toStr obj @ '':'' @ toStr (encodeObjType obj) @ '')''
      | Some s \<Rightarrow> s)"
  by pat_completeness auto
termination
  by (relation "measure size")
    (auto simp: encodeObjType_def Let_def less_Suc_eq_le size_list_estimation' split: option.splits)

text \<open>JavaScript's truthiness, which \<open>&&\<close>, \<open>||\<close>, \<open>!\<close> and \<open>if\<close> test.\<close>

fun truthy :: "jsval \<Rightarrow> bool" where
  "truthy JNull = False"
| "truthy JUndefined = False"
| "truthy (JBool b) = b"
| "truthy (JNum n) = (n \<noteq> 0)"
| "truthy (JStr s) = (s \<noteq> [])"
| "truthy (JArray xs) = True"
| "truthy (JObject ts fs) = True"
| "truthy (JWrapper obj ts) = True"

text \<open>\<open>wrapObj\<close> (433-437) and \<open>isWrapped\<close> (440-442).\<close>

definition wrapObj :: "(jsval \<Rightarrow> string) option \<Rightarrow> jsval \<Rightarrow> jsval" where
  "wrapObj toStr_opt obj =
     (case toStr_opt of None \<Rightarrow> JWrapper obj None | Some f \<Rightarrow> JWrapper obj (Some (f obj)))"

fun isWrapped :: "jsval \<Rightarrow> bool" where
  "isWrapped (JWrapper obj ts) = True"
| "isWrapped v = False"

section \<open>Objects used as dictionaries\<close>

text \<open>
  \<open>Object.create(null)\<close> is a dictionary from strings with no inherited property. It is
  an association list in the order in which the keys were created: assigning to an absent
  key appends it (\<open>AList.update\<close>), assigning to a present one keeps its place, \<open>delete\<close>
  removes it (\<open>AList.delete\<close>). A \<open>for (k in obj)\<close> loop visits the keys that are array
  indices first, in ascending numeric order, and then the other keys in creation order.
\<close>

record entry =
  item :: jsval
  freq :: nat

type_synonym hist = "(string \<times> entry) list"

definition is_digit :: "char \<Rightarrow> bool" where
  "is_digit c = (CHR ''0'' \<le> c \<and> c \<le> CHR ''9'')"

definition str_to_int :: "string \<Rightarrow> int" where
  "str_to_int s = foldl (\<lambda>n c. 10 * n + (of_char c - 48)) 0 s"

definition array_index :: "string \<Rightarrow> int option" where
  "array_index s =
     (if s \<noteq> [] \<and> list_all is_digit s \<and> (hd s \<noteq> CHR ''0'' \<or> s = ''0'')
         \<and> str_to_int s < 2 ^ 32 - 1
      then Some (str_to_int s) else None)"

definition index_of :: "string \<times> 'a \<Rightarrow> int" where
  "index_of p = (case array_index (fst p) of None \<Rightarrow> 0 | Some n \<Rightarrow> n)"

definition for_in :: "(string \<times> 'a) list \<Rightarrow> (string \<times> 'a) list" where
  "for_in h =
     sort_key index_of (filter (\<lambda>p. array_index (fst p) \<noteq> None) h)
     @ filter (\<lambda>p. array_index (fst p) = None) h"

section \<open>Set instances\<close>

text \<open>
  The constructor \<open>Set(a, hashFn)\<close> (56-99) holds \<open>hist\<close> as a field and \<open>hashFn\<close> and
  \<open>mutable\<close> in its closure; \<open>hashFn = None\<close> is the argument left \<open>undefined\<close>. A key
  function is called with the value as \<open>this\<close> and is modelled as a function of it.
\<close>

record set_obj =
  hist :: hist
  hashFn :: "(jsval \<Rightarrow> jsval) option"
  mutable :: bool

text \<open>\<open>this.uid\<close> (64-74).\<close>

definition this_uid :: "set_obj \<Rightarrow> jsval \<Rightarrow> jsval" where
  "this_uid s = (case hashFn s of None \<Rightarrow> (\<lambda>this. this) | Some f \<Rightarrow> (\<lambda>this. f this))"

text \<open>\<open>add\<close> (108-119): the body of the \<open>forEach\<close>, and the loop over the arguments.\<close>

definition add_arg :: "set_obj \<Rightarrow> jsval \<Rightarrow> set_obj" where
  "add_arg s arg =
     (let key = this_uid s arg; entry = map_of (hist s) (toStr key) in
      case entry of
        None \<Rightarrow> s\<lparr>hist := AList.update (toStr key) \<lparr>item = arg, freq = 1\<rparr> (hist s)\<rparr>
      | Some e \<Rightarrow> s)"

definition add :: "set_obj \<Rightarrow> jsval list \<Rightarrow> set_obj" where
  "add s args = foldl add_arg s args"

text \<open>\<open>remove\<close> (122-130).\<close>

definition remove_arg :: "set_obj \<Rightarrow> jsval \<Rightarrow> set_obj" where
  "remove_arg s arg =
     (let key = this_uid s arg in
      case map_of (hist s) (toStr key) of
        None \<Rightarrow> s
      | Some e \<Rightarrow> s\<lparr>hist := AList.delete (toStr key) (hist s)\<rparr>)"

definition remove :: "set_obj \<Rightarrow> jsval list \<Rightarrow> set_obj" where
  "remove s args = foldl remove_arg s args"

text \<open>\<open>addItems\<close>, \<open>removeItems\<close> (133-142) and \<open>clear\<close> (146-150).\<close>

definition addItems :: "set_obj \<Rightarrow> jsval list \<Rightarrow> set_obj" where
  "addItems s a = add s a"

definition removeItems :: "set_obj \<Rightarrow> jsval list \<Rightarrow> set_obj" where
  "removeItems s a = remove s a"

definition clear :: "set_obj \<Rightarrow> jsval list option \<Rightarrow> set_obj" where
  "clear s a = (let s' = s\<lparr>hist := []\<rparr> in case a of None \<Rightarrow> s' | Some xs \<Rightarrow> addItems s' xs)"

text \<open>
  \<open>each\<close> (153-160) calls the action on the items in \<open>for in\<close> order; \<open>map\<close> (163-169)
  and \<open>items\<close> (172-176) never ask it to stop.
\<close>

definition map_set :: "set_obj \<Rightarrow> (jsval \<Rightarrow> 'a) \<Rightarrow> 'a list" where
  "map_set s action = foldl (\<lambda>m p. m @ [action (item (snd p))]) [] (for_in (hist s))"

definition items :: "set_obj \<Rightarrow> jsval list" where
  "items s = map_set s (\<lambda>item. item)"

text \<open>\<open>keyify\<close> (179-186), \<open>unwrap\<close> (189-193), \<open>toString\<close> (196-198), \<open>size\<close> (201-203).\<close>

definition keyify :: "set_obj \<Rightarrow> string" where
  "keyify s =
     (let keys = map_set s (\<lambda>item.
                   let key = this_uid s item in
                   toStr key @ '':'' @ toStr (encodeObjType item) @ '','')
      in ''{'' @ butlast (concat (sort keys)) @ ''}'')"

definition unwrap :: "set_obj \<Rightarrow> jsval list" where
  "unwrap s = map_set s (\<lambda>item. case item of JWrapper obj ts \<Rightarrow> obj | _ \<Rightarrow> item)"

definition toString :: "set_obj \<Rightarrow> string" where
  "toString s = keyify s"

definition size_set :: "set_obj \<Rightarrow> nat" where
  "size_set s = length (items s)"

text \<open>
  \<open>has\<close> (206-210): \<open>item\<close> is \<open>undefined\<close> when the key is absent and the stored item
  otherwise; the result is its truthiness.
\<close>

definition has :: "set_obj \<Rightarrow> jsval \<Rightarrow> bool" where
  "has s v =
     (let key = this_uid s v in
      case map_of (hist s) (toStr key) of
        None \<Rightarrow> False
      | Some e \<Rightarrow> truthy (item e))"

text \<open>The constructor: \<open>new Set(a, hashFn)\<close>, and \<open>mutable()\<close> (95-98).\<close>

definition Set_new :: "jsval list \<Rightarrow> (jsval \<Rightarrow> jsval) option \<Rightarrow> set_obj" where
  "Set_new a h = add \<lparr>hist = [], hashFn = h, mutable = False\<rparr> a"

definition set_mutable :: "set_obj \<Rightarrow> set_obj" where
  "set_mutable s = s\<lparr>mutable := True\<rparr>"

definition clone :: "set_obj \<Rightarrow> set_obj" where
  "clone s = Set_new (items s) (hashFn s)"

section \<open>The stack of key functions\<close>

text \<open>
  The closure of lines 280-384 holds \<open>uidList\<close> and \<open>uid\<close>. \<open>uidList.push\<close> appends, so
  the top of the stack is the last element.
\<close>

record uid_state =
  uidList :: "(jsval \<Rightarrow> jsval) list"
  uid :: "jsval \<Rightarrow> jsval"

definition identity_uid :: "jsval \<Rightarrow> jsval" where
  "identity_uid this = this"

definition uid_init :: uid_state where
  "uid_init = \<lparr>uidList = [identity_uid], uid = identity_uid\<rparr>"

text \<open>\<open>Set.pushUid\<close> (290-294) and \<open>Set.popUid\<close> (298-303), with the value returned.\<close>

definition pushUid :: "(jsval \<Rightarrow> jsval) \<Rightarrow> uid_state \<Rightarrow> (jsval \<Rightarrow> jsval) \<times> uid_state" where
  "pushUid method g = (method, \<lparr>uidList = uidList g @ [method], uid = method\<rparr>)"

definition popUid :: "uid_state \<Rightarrow> (jsval \<Rightarrow> jsval) option \<times> uid_state" where
  "popUid g =
     (let (prev, l) = (if length (uidList g) > 1
                       then (Some (last (uidList g)), butlast (uidList g))
                       else (None, uidList g))
      in (prev, \<lparr>uidList = l, uid = last l\<rparr>))"

section \<open>Set operations\<close>

text \<open>
  \<open>Set.process\<close> (309-336). The two \<open>forEach\<close> loops build the table; with an evaluator
  the third loop collects the items it accepts, without one the table itself is returned.
\<close>

definition process_a :: "(jsval \<Rightarrow> jsval) \<Rightarrow> hist \<Rightarrow> jsval \<Rightarrow> hist" where
  "process_a u h x =
     (let ukey = toStr (u x) in
      case map_of h ukey of
        None \<Rightarrow> AList.update ukey \<lparr>item = x, freq = 1\<rparr> h
      | Some e \<Rightarrow> h)"

definition process_b :: "(jsval \<Rightarrow> jsval) \<Rightarrow> hist \<Rightarrow> jsval \<Rightarrow> hist" where
  "process_b u h x =
     (let ukey = toStr (u x) in
      case map_of h ukey of
        Some e \<Rightarrow> (if freq e = 1 then AList.update ukey (e\<lparr>freq := 3\<rparr>) h else h)
      | None \<Rightarrow> AList.update ukey \<lparr>item = x, freq = 2\<rparr> h)"

definition process_hist :: "(jsval \<Rightarrow> jsval) \<Rightarrow> jsval list \<Rightarrow> jsval list \<Rightarrow> hist" where
  "process_hist u a b = foldl (process_b u) (foldl (process_a u) [] a) b"

datatype result = Out "jsval list" | Hist hist

definition Set_process ::
  "uid_state \<Rightarrow> jsval list \<Rightarrow> jsval list \<Rightarrow> (nat \<Rightarrow> bool) option \<Rightarrow> result" where
  "Set_process g a b evaluator =
     (let hist = process_hist (uid g) a b in
      case evaluator of
        Some ev \<Rightarrow>
          Out (foldl (\<lambda>out p. if ev (freq (snd p)) then out @ [item (snd p)] else out) []
                 (for_in hist))
      | None \<Rightarrow> Hist hist)"

text \<open>The class methods (340-383). A call with an evaluator returns an array.\<close>

definition out_of :: "result \<Rightarrow> jsval list" where
  "out_of r = (case r of Out xs \<Rightarrow> xs | Hist h \<Rightarrow> [])"

definition Set_union :: "uid_state \<Rightarrow> jsval list \<Rightarrow> jsval list \<Rightarrow> jsval list" where
  "Set_union g a b = out_of (Set_process g a b (Some (\<lambda>freq. True)))"

definition Set_intersection :: "uid_state \<Rightarrow> jsval list \<Rightarrow> jsval list \<Rightarrow> jsval list" where
  "Set_intersection g a b = out_of (Set_process g a b (Some (\<lambda>freq. freq = 3)))"

definition Set_difference :: "uid_state \<Rightarrow> jsval list \<Rightarrow> jsval list \<Rightarrow> jsval list" where
  "Set_difference g a b = out_of (Set_process g a b (Some (\<lambda>freq. freq < 3)))"

definition Set_complement :: "uid_state \<Rightarrow> jsval list \<Rightarrow> jsval list \<Rightarrow> jsval list" where
  "Set_complement g a b = out_of (Set_process g a b (Some (\<lambda>freq. freq = 1)))"

text \<open>
  The loop of \<open>equals\<close> (251-259, 375-383): \<open>max\<close> starts at 0 and \<open>min\<close> at
  \<open>Infinity\<close>.
\<close>

definition min_max_3 :: "result \<Rightarrow> bool" where
  "min_max_3 r =
     (case r of
        Hist h \<Rightarrow>
          (let (mx, mn) = foldl (\<lambda>(mx, mn) p. (max mx (enat (freq (snd p))), min mn (enat (freq (snd p)))))
                            (0, \<infinity>) (for_in h)
           in mn = 3 \<and> mx = 3)
      | Out xs \<Rightarrow> False)"

definition Set_equals :: "uid_state \<Rightarrow> jsval list \<Rightarrow> jsval list \<Rightarrow> bool" where
  "Set_equals g a b = min_max_3 (Set_process g a b None)"

text \<open>
  \<open>this.process\<close> (80-87). The operand is a \<open>Set\<close> or an array. The result comes with
  the receiver and the stack of key functions as the call leaves them.
\<close>

datatype operand = SetArg set_obj | ArrayArg "jsval list"

definition operand_items :: "operand \<Rightarrow> jsval list" where
  "operand_items b = (case b of SetArg t \<Rightarrow> items t | ArrayArg xs \<Rightarrow> xs)"

definition process ::
  "set_obj \<Rightarrow> operand \<Rightarrow> (nat \<Rightarrow> bool) option \<Rightarrow> uid_state \<Rightarrow> result \<times> set_obj \<times> uid_state" where
  "process s b evaluator g =
     (let b' = operand_items b;
          g1 = (case hashFn s of None \<Rightarrow> g | Some f \<Rightarrow> snd (pushUid f g));
          result = Set_process g1 (items s) b' evaluator;
          g2 = (case hashFn s of None \<Rightarrow> g1 | Some f \<Rightarrow> snd (popUid g1));
          s' = (case result of
                  Out xs \<Rightarrow> if mutable s then clear s (Some xs) else s
                | Hist h \<Rightarrow> s)
      in (result, s', g2))"

text \<open>The prototype's set operations (219-259).\<close>

definition union_set :: "set_obj \<Rightarrow> operand \<Rightarrow> uid_state \<Rightarrow> result \<times> set_obj \<times> uid_state" where
  "union_set s b g = process s b (Some (\<lambda>freq. True)) g"

definition intersection :: "set_obj \<Rightarrow> operand \<Rightarrow> uid_state \<Rightarrow> result \<times> set_obj \<times> uid_state" where
  "intersection s b g = process s b (Some (\<lambda>freq. freq = 3)) g"

definition difference :: "set_obj \<Rightarrow> operand \<Rightarrow> uid_state \<Rightarrow> result \<times> set_obj \<times> uid_state" where
  "difference s b g = process s b (Some (\<lambda>freq. freq < 3)) g"

definition complement :: "set_obj \<Rightarrow> operand \<Rightarrow> uid_state \<Rightarrow> result \<times> set_obj \<times> uid_state" where
  "complement s b g = process s b (Some (\<lambda>freq. freq = 1)) g"

definition equals :: "set_obj \<Rightarrow> operand \<Rightarrow> uid_state \<Rightarrow> bool \<times> set_obj \<times> uid_state" where
  "equals s b g = (let (h, s', g') = process s b None g in (min_max_3 h, s', g'))"

section \<open>Notions used in the statements\<close>

text \<open>
  The key of a value under a key function: the function's result, converted to a string
  by the property access.
\<close>

definition key_of :: "(jsval \<Rightarrow> jsval) \<Rightarrow> jsval \<Rightarrow> string" where
  "key_of u v = toStr (u v)"

text \<open>
  The key function that \<open>Set.process\<close> sees when it is called from \<open>this.process\<close>:
  the instance's \<open>hashFn\<close> when it has one, the function on top of the stack otherwise.
\<close>

definition active_uid :: "set_obj \<Rightarrow> uid_state \<Rightarrow> jsval \<Rightarrow> jsval" where
  "active_uid s g = (case hashFn s of None \<Rightarrow> uid g | Some f \<Rightarrow> f)"

text \<open>
  The stack of key functions is never empty and \<open>uid\<close> is its top: this holds of the
  initial state and after every \<open>pushUid\<close> and \<open>popUid\<close>.
\<close>

definition uid_wf :: "uid_state \<Rightarrow> bool" where
  "uid_wf g = (uidList g \<noteq> [] \<and> uid g = last (uidList g))"

text \<open>
  What \<open>keyify\<close> writes for an item, without the comma: the key under the set's own key
  function, a colon, and the type code of the item.
\<close>

definition key_type_pair :: "set_obj \<Rightarrow> jsval \<Rightarrow> string" where
  "key_type_pair s v = key_of (this_uid s) v @ '':'' @ toStr (encodeObjType v)"

text \<open>
  A key function for objects, the \<open>function() { return this.id; }\<close> of the header comment
  (lines 42 and 49) made total: \<open>function() { return this == null ? undefined : this.id; }\<close>.
  Only a plain object has an \<open>id\<close> in this model.
\<close>

definition get_id :: "jsval \<Rightarrow> jsval" where
  "get_id this =
     (case this of
        JObject ts fs \<Rightarrow> (case map_of fs ''id'' of None \<Rightarrow> JUndefined | Some v \<Rightarrow> v)
      | _ \<Rightarrow> JUndefined)"

section \<open>Auxiliary facts\<close>

lemma update_absent: "map_of al k = None \<Longrightarrow> AList.update k v al = al @ [(k, v)]"
  by (induction al) (auto split: if_splits)

lemma map_of_process_a:
  "map_of (process_a u h x) k =
     (case map_of h k of
        Some e \<Rightarrow> Some e
      | None \<Rightarrow> if key_of u x = k then Some \<lparr>item = x, freq = 1\<rparr> else None)"
  by (auto simp: process_a_def key_of_def Let_def update_conv' split: option.splits)

lemma map_of_foldl_process_a:
  "map_of (foldl (process_a u) h xs) k =
     (case map_of h k of
        Some e \<Rightarrow> Some e
      | None \<Rightarrow> map_option (\<lambda>v. \<lparr>item = v, freq = 1\<rparr>) (find (\<lambda>v. key_of u v = k) xs))"
  by (induction xs arbitrary: h) (auto simp: map_of_process_a split: option.splits)

lemma distinct_process_a:
  "distinct (map fst h) \<Longrightarrow> distinct (map fst (process_a u h x))"
  by (auto simp: process_a_def Let_def distinct_update split: option.splits)

lemma distinct_foldl_process_a:
  "distinct (map fst h) \<Longrightarrow> distinct (map fst (foldl (process_a u) h xs))"
  by (induction xs arbitrary: h) (auto simp: distinct_process_a)

lemma map_of_process_b:
  "map_of (process_b u h x) k =
     (case map_of h k of
        Some e \<Rightarrow> if key_of u x = k \<and> freq e = 1 then Some (e\<lparr>freq := 3\<rparr>) else Some e
      | None \<Rightarrow> if key_of u x = k then Some \<lparr>item = x, freq = 2\<rparr> else None)"
  by (auto simp: process_b_def key_of_def Let_def update_conv' split: option.splits)

lemma distinct_process_b:
  "distinct (map fst h) \<Longrightarrow> distinct (map fst (process_b u h x))"
  by (auto simp: process_b_def Let_def distinct_update split: option.splits)

lemma distinct_foldl_process_b:
  "distinct (map fst h) \<Longrightarrow> distinct (map fst (foldl (process_b u) h xs))"
  by (induction xs arbitrary: h) (auto simp: distinct_process_b)

lemma map_of_foldl_process_b:
  "map_of (foldl (process_b u) h ys) k =
     (case map_of h k of
        Some e \<Rightarrow> if k \<in> key_of u ` set ys \<and> freq e = 1 then Some (e\<lparr>freq := 3\<rparr>) else Some e
      | None \<Rightarrow> map_option (\<lambda>v. \<lparr>item = v, freq = 2\<rparr>) (find (\<lambda>v. key_of u v = k) ys))"
proof (induction ys arbitrary: h)
  case Nil
  show ?case by (simp split: option.splits)
next
  case (Cons y ys)
  show ?case
    by (simp add: Cons.IH map_of_process_b split: option.splits)
qed

lemma distinct_process_hist: "distinct (map fst (process_hist u a b))"
  by (simp add: process_hist_def distinct_foldl_process_a distinct_foldl_process_b)

lemma map_of_process_hist:
  "map_of (process_hist u a b) k =
     (case find (\<lambda>v. key_of u v = k) a of
        Some v \<Rightarrow> Some \<lparr>item = v, freq = (if k \<in> key_of u ` set b then 3 else 1)\<rparr>
      | None \<Rightarrow> map_option (\<lambda>v. \<lparr>item = v, freq = 2\<rparr>) (find (\<lambda>v. key_of u v = k) b))"
  by (simp add: process_hist_def map_of_foldl_process_b map_of_foldl_process_a split: option.splits)

lemma mset_for_in: "mset (for_in h) = mset h"
  by (simp add: for_in_def)

lemma set_for_in: "set (for_in h) = set h"
  using mset_for_in [of h] by (metis set_mset_mset)

lemma length_for_in: "length (for_in h) = length h"
  using mset_for_in [of h] by (metis size_mset)

lemma distinct_for_in:
  "distinct (map fst h) \<Longrightarrow> distinct (map fst (for_in h))"
proof -
  have "mset (map fst (for_in h)) = mset (map fst h)"
    using mset_for_in [of h] by (metis mset_map)
  then show "distinct (map fst h) \<Longrightarrow> distinct (map fst (for_in h))"
    by (metis mset_eq_imp_distinct_iff)
qed

lemma map_of_for_in:
  "distinct (map fst h) \<Longrightarrow> map_of (for_in h) = map_of h"
  by (simp add: map_of_inject_set distinct_for_in set_for_in)

lemma foldl_snoc_filter:
  "foldl (\<lambda>out p. if P p then out @ [f p] else out) acc xs = acc @ map f (filter P xs)"
  by (induction xs arbitrary: acc) auto


lemma freq_process_hist:
  "map_option freq (map_of (process_hist u a b) k) =
     (if k \<in> key_of u ` set a \<and> k \<in> key_of u ` set b then Some 3
      else if k \<in> key_of u ` set a then Some 1
      else if k \<in> key_of u ` set b then Some 2
      else None)"
proof -
  have fa: "(find (\<lambda>v. key_of u v = k) a = None) = (k \<notin> key_of u ` set a)"
    by (auto simp: find_None_iff)
  have fb: "(find (\<lambda>v. key_of u v = k) b = None) = (k \<notin> key_of u ` set b)"
    by (auto simp: find_None_iff)
  show ?thesis
    using fa fb by (cases "find (\<lambda>v. key_of u v = k) a"; cases "find (\<lambda>v. key_of u v = k) b")
      (simp_all add: map_of_process_hist)
qed


lemma out_Set_process:
  "out_of (Set_process g a b (Some ev)) =
     map (\<lambda>p. item (snd p)) (filter (\<lambda>p. ev (freq (snd p))) (for_in (process_hist (uid g) a b)))"
  by (simp add: Set_process_def out_of_def foldl_snoc_filter)


lemma fst_process:
  "fst (process s b ev g) = Set_process (g\<lparr>uid := active_uid s g\<rparr>) (items s) (operand_items b) ev"
  by (simp add: process_def Let_def active_uid_def pushUid_def Set_process_def split: option.splits)

lemma min_max_fold:
  "(case foldl (\<lambda>(mx, mn) p. (max mx (enat (freq (snd p))), min mn (enat (freq (snd p)))))
           (mx, mn) xs of
      (mx', mn') \<Rightarrow> mn' = 3 \<and> mx' = 3) \<longleftrightarrow>
   mx \<le> 3 \<and> 3 \<le> mn \<and> (\<forall>p\<in>set xs. freq (snd p) = 3)
   \<and> (mx = 3 \<or> xs \<noteq> []) \<and> (mn = 3 \<or> xs \<noteq> [])"
proof (induction xs arbitrary: mx mn)
  case Nil
  show ?case by auto
next
  case (Cons x xs)
  define f where "f = freq (snd x)"
  have step: "(max mx (enat f) \<le> 3 \<and> 3 \<le> min mn (enat f)) \<longleftrightarrow> (mx \<le> 3 \<and> 3 \<le> mn \<and> f = 3)"
    by (cases mx; cases mn) (auto simp: numeral_eq_enat)
  have m1: "mx \<le> 3 \<Longrightarrow> max mx (enat 3) = 3"
    by (simp add: numeral_eq_enat max_def)
  have m2: "3 \<le> mn \<Longrightarrow> min mn (enat 3) = 3"
    by (simp add: numeral_eq_enat min_def)
  have "(case foldl (\<lambda>(mx, mn) p. (max mx (enat (freq (snd p))), min mn (enat (freq (snd p)))))
           (mx, mn) (x # xs) of
      (mx', mn') \<Rightarrow> mn' = 3 \<and> mx' = 3) \<longleftrightarrow>
      max mx (enat f) \<le> 3 \<and> 3 \<le> min mn (enat f) \<and> (\<forall>p\<in>set xs. freq (snd p) = 3)
   \<and> (max mx (enat f) = 3 \<or> xs \<noteq> []) \<and> (min mn (enat f) = 3 \<or> xs \<noteq> [])"
    unfolding f_def by (simp add: Cons.IH)
  also have "\<dots> \<longleftrightarrow> mx \<le> 3 \<and> 3 \<le> mn \<and> f = 3 \<and> (\<forall>p\<in>set xs. freq (snd p) = 3)"
    using step m1 m2 by blast
  finally show ?case
    by (simp add: f_def conj_ac)
qed


lemma min_max_3_iff:
  "min_max_3 (Hist h) \<longleftrightarrow> h \<noteq> [] \<and> (\<forall>p\<in>set h. freq (snd p) = 3)"
proof -
  have "min_max_3 (Hist h) \<longleftrightarrow>
      (case foldl (\<lambda>(mx, mn) p. (max mx (enat (freq (snd p))), min mn (enat (freq (snd p)))))
           (0, \<infinity>) (for_in h) of
      (mx', mn') \<Rightarrow> mn' = 3 \<and> mx' = 3)"
    by (simp add: min_max_3_def)
  also have "\<dots> \<longleftrightarrow> for_in h \<noteq> [] \<and> (\<forall>p\<in>set (for_in h). freq (snd p) = 3)"
    unfolding min_max_fold by auto
  finally have "min_max_3 (Hist h) \<longleftrightarrow> for_in h \<noteq> [] \<and> (\<forall>p\<in>set (for_in h). freq (snd p) = 3)" .
  moreover have "for_in h = [] \<longleftrightarrow> h = []"
    using length_for_in [of h] by (metis length_0_conv)
  ultimately show ?thesis
    by (simp add: set_for_in)
qed

lemma process_hist_None_iff:
  "map_of (process_hist u a b) k = None \<longleftrightarrow>
     k \<notin> key_of u ` set a \<and> k \<notin> key_of u ` set b"
proof -
  have "map_of (process_hist u a b) k = None \<longleftrightarrow>
        map_option freq (map_of (process_hist u a b) k) = None"
    by simp
  also have "\<dots> \<longleftrightarrow> k \<notin> key_of u ` set a \<and> k \<notin> key_of u ` set b"
    unfolding freq_process_hist by (simp only: if_split_eq1 option.distinct simp_thms) blast
  finally show ?thesis .
qed


lemma process_hist_Nil_iff: "process_hist u a b = [] \<longleftrightarrow> a = [] \<and> b = []"
proof
  assume "process_hist u a b = []"
  then have n: "map_of (process_hist u a b) k = None" for k
    by simp
  have "x \<notin> set a" for x
    using n [of "key_of u x"] unfolding process_hist_None_iff by blast
  then have a: "a = []"
    by (cases a) auto
  have "x \<notin> set b" for x
    using n [of "key_of u x"] unfolding process_hist_None_iff by blast
  then have b: "b = []"
    by (cases b) auto
  from a b show "a = [] \<and> b = []"
    by simp
next
  assume "a = [] \<and> b = []"
  then show "process_hist u a b = []"
    by (simp add: process_hist_def)
qed

lemma freq_3_iff:
  assumes "p \<in> set (process_hist u a b)"
  shows "freq (snd p) = 3 \<longleftrightarrow> fst p \<in> key_of u ` set a \<and> fst p \<in> key_of u ` set b"
proof -
  have "map_of (process_hist u a b) (fst p) = Some (snd p)"
    using assms by (simp add: map_of_eq_Some_iff [OF distinct_process_hist])
  then have "map_option freq (map_of (process_hist u a b) (fst p)) = Some (freq (snd p))"
    by simp
  then have "Some (freq (snd p)) =
     (if fst p \<in> key_of u ` set a \<and> fst p \<in> key_of u ` set b then Some 3
      else if fst p \<in> key_of u ` set a then Some 1
      else if fst p \<in> key_of u ` set b then Some 2
      else None)"
    by (simp only: freq_process_hist)
  then show ?thesis
    by (cases "fst p \<in> key_of u ` set a"; cases "fst p \<in> key_of u ` set b") simp_all
qed

lemma in_process_hist:
  assumes "k \<in> key_of u ` set a \<or> k \<in> key_of u ` set b"
  shows "\<exists>e. (k, e) \<in> set (process_hist u a b)"
proof -
  have "map_of (process_hist u a b) k \<noteq> None"
    unfolding process_hist_None_iff using assms by blast
  then obtain e where "map_of (process_hist u a b) k = Some e"
    by blast
  then show ?thesis
    by (blast dest: map_of_SomeD)
qed


lemma all_3_iff:
  "(\<forall>p\<in>set (process_hist u a b). freq (snd p) = 3) \<longleftrightarrow> key_of u ` set a = key_of u ` set b"
proof
  assume l: "\<forall>p\<in>set (process_hist u a b). freq (snd p) = 3"
  have "k \<in> key_of u ` set a \<and> k \<in> key_of u ` set b"
    if "k \<in> key_of u ` set a \<or> k \<in> key_of u ` set b" for k
  proof -
    from in_process_hist [OF that] obtain e where e: "(k, e) \<in> set (process_hist u a b)"
      by blast
    with l have "freq (snd (k, e)) = 3"
      by blast
    with freq_3_iff [OF e] show ?thesis
      by simp
  qed
  then show "key_of u ` set a = key_of u ` set b"
    by blast
next
  assume r: "key_of u ` set a = key_of u ` set b"
  show "\<forall>p\<in>set (process_hist u a b). freq (snd p) = 3"
  proof
    fix p assume p: "p \<in> set (process_hist u a b)"
    then have "map_of (process_hist u a b) (fst p) = Some (snd p)"
      by (simp add: map_of_eq_Some_iff [OF distinct_process_hist])
    then have "map_of (process_hist u a b) (fst p) \<noteq> None"
      by simp
    then have "fst p \<in> key_of u ` set a \<or> fst p \<in> key_of u ` set b"
      unfolding process_hist_None_iff by blast
    with r show "freq (snd p) = 3"
      unfolding freq_3_iff [OF p] by blast
  qed
qed

lemma Set_equals_iff:
  "Set_equals g a b \<longleftrightarrow>
     (a \<noteq> [] \<or> b \<noteq> []) \<and> key_of (uid g) ` set a = key_of (uid g) ` set b"
  by (simp add: Set_equals_def Set_process_def min_max_3_iff process_hist_Nil_iff all_3_iff)


lemma map_set_eq: "map_set s f = map (\<lambda>p. f (item (snd p))) (for_in (hist s))"
  using foldl_snoc_filter [of "\<lambda>p. True" "\<lambda>p. f (item (snd p))" "[]" "for_in (hist s)"]
  by (simp add: map_set_def)

lemma items_eq: "items s = map (\<lambda>p. item (snd p)) (for_in (hist s))"
  by (simp add: items_def map_set_eq)

lemma items_Nil_iff: "items s = [] \<longleftrightarrow> hist s = []"
  using length_for_in [of "hist s"] by (simp add: items_eq) (metis length_0_conv)

lemma fst_equals:
  "fst (equals s c g) = Set_equals (g\<lparr>uid := active_uid s g\<rparr>) (items s) (operand_items c)"
proof -
  have "fst (equals s c g) = min_max_3 (fst (process s c None g))"
    by (simp add: equals_def split: prod.splits)
  then show ?thesis
    by (simp add: fst_process Set_equals_def)
qed

lemma hist_add_arg: "hist (add_arg s v) = process_a (this_uid s) (hist s) v"
  by (simp add: add_arg_def process_a_def Let_def split: option.splits)

lemma add_arg_fields: "hashFn (add_arg s v) = hashFn s \<and> mutable (add_arg s v) = mutable s"
  by (simp add: add_arg_def Let_def split: option.splits)

lemma this_uid_add_arg: "this_uid (add_arg s v) = this_uid s"
  by (simp add: this_uid_def add_arg_fields)

lemma add_fields: "hashFn (add s vs) = hashFn s \<and> mutable (add s vs) = mutable s"
  unfolding add_def by (induction vs arbitrary: s) (simp_all add: add_arg_fields)

lemma hist_add: "hist (add s vs) = foldl (process_a (this_uid s)) (hist s) vs"
  unfolding add_def
  by (induction vs arbitrary: s) (simp_all add: hist_add_arg this_uid_add_arg)

lemma add_arg_present: "map_of (hist s) (key_of (this_uid s) v) \<noteq> None \<Longrightarrow> add_arg s v = s"
  by (auto simp: add_arg_def key_of_def Let_def)

lemma add_arg_absent:
  "map_of (hist s) (key_of (this_uid s) v) = None \<Longrightarrow>
   hist (add_arg s v) = hist s @ [(key_of (this_uid s) v, \<lparr>item = v, freq = 1\<rparr>)]"
  by (simp add: add_arg_def key_of_def Let_def update_absent)

lemma pop_push: "uid_wf g \<Longrightarrow> popUid (snd (pushUid m g)) = (Some m, g)"
  by (cases g) (auto simp: uid_wf_def popUid_def pushUid_def)

lemma uid_wf_push: "uid_wf (snd (pushUid m g))"
  by (simp add: uid_wf_def pushUid_def)

lemma uid_wf_pop: "uidList g \<noteq> [] \<Longrightarrow> uid_wf (snd (popUid g))"
proof -
  assume n: "uidList g \<noteq> []"
  have "length (uidList g) > 1 \<Longrightarrow> butlast (uidList g) \<noteq> []"
    by (cases "uidList g") auto
  with n show ?thesis
    by (simp add: uid_wf_def popUid_def)
qed

lemma process_uid_state: "uid_wf g \<Longrightarrow> snd (snd (process s c ev g)) = g"
  by (simp add: process_def Let_def pop_push split: option.splits)

lemma codes_Number: "codes ''Number'' = Some 4"
  by code_simp

lemma codes_String: "codes ''String'' = Some 5"
  by code_simp

lemma toStr_code_4: "toStr (JNum 4) = ''4''"
  by code_simp

lemma toStr_code_5: "toStr (JNum 5) = ''5''"
  by code_simp

lemma toStr_wrap_Num: "toStr (wrapObj None (JNum n)) = ''('' @ num_to_str (sint n) @ '':4)''"
  by (simp add: wrapObj_def encodeObjType_def codes_Number toStr_code_4 del: toStr.simps(4))
    (simp)

lemma toStr_wrap_Str: "toStr (wrapObj None (JStr x)) = ''('' @ x @ '':5)''"
  by (simp add: wrapObj_def encodeObjType_def codes_String toStr_code_5 del: toStr.simps(4))

lemma receiver_process:
  "fst (snd (process s c ev g)) =
     (case fst (process s c ev g) of
        Out xs \<Rightarrow> if mutable s then clear s (Some xs) else s
      | Hist h \<Rightarrow> s)"
  by (simp add: process_def Let_def)

lemma process_Some_Out:
  "fst (process s c (Some ev) g) = Out (out_of (fst (process s c (Some ev) g)))"
  by (simp add: process_def Let_def Set_process_def out_of_def)

lemma receiver_process_Some:
  "fst (snd (process s c (Some ev) g)) =
     (if mutable s then clear s (Some (out_of (fst (process s c (Some ev) g)))) else s)"
  using process_Some_Out [of s c ev g]
  by (simp only: receiver_process [of s c "Some ev" g]) (simp add: out_of_def split: result.splits)

lemma receiver_equals: "fst (snd (equals s c g)) = s"
proof -
  have "fst (snd (equals s c g)) = fst (snd (process s c None g))"
    by (simp add: equals_def split: prod.splits)
  then show ?thesis
    by (simp add: process_def Let_def Set_process_def)
qed

lemma clear_fields:
  "hashFn (clear s a) = hashFn s \<and> mutable (clear s a) = mutable s"
  by (cases a) (simp_all add: clear_def addItems_def add_fields)

lemma hist_clear: "hist (clear s (Some xs)) = foldl (process_a (this_uid s)) [] xs"
proof -
  have "this_uid (s\<lparr>hist := []\<rparr>) = this_uid s"
    by (simp add: this_uid_def)
  then show ?thesis
    by (simp add: clear_def addItems_def hist_add)
qed

lemma hist_Set_new: "hist (Set_new xs h) = foldl (process_a (case h of None \<Rightarrow> (\<lambda>this. this) | Some f \<Rightarrow> f)) [] xs"
  by (simp add: Set_new_def hist_add this_uid_def split: option.splits)

lemma key_item_process_hist:
  assumes "(k, e) \<in> set (process_hist u a b)"
  shows "key_of u (item e) = k"
proof -
  have m: "map_of (process_hist u a b) k = Some e"
    using assms by (simp add: map_of_eq_Some_iff [OF distinct_process_hist])
  show ?thesis
  proof (cases "find (\<lambda>v. key_of u v = k) a")
    case (Some v)
    with m have "item e = v"
      by (auto simp: map_of_process_hist)
    with Some show ?thesis
      by (auto simp: find_Some_iff)
  next
    case None
    with m obtain v where v: "find (\<lambda>v. key_of u v = k) b = Some v" and "item e = v"
      by (auto simp: map_of_process_hist)
    then show ?thesis
      by (auto simp: find_Some_iff)
  qed
qed

lemma foldl_process_a_fresh:
  "distinct (map (key_of u) xs) \<Longrightarrow> (\<forall>x\<in>set xs. map_of h (key_of u x) = None) \<Longrightarrow>
   foldl (process_a u) h xs = h @ map (\<lambda>v. (key_of u v, \<lparr>item = v, freq = 1\<rparr>)) xs"
proof (induction xs arbitrary: h)
  case Nil
  show ?case by simp
next
  case (Cons x xs)
  have s: "process_a u h x = h @ [(key_of u x, \<lparr>item = x, freq = 1\<rparr>)]"
    using Cons.prems(2) by (simp add: process_a_def key_of_def Let_def update_absent)
  have "\<forall>y\<in>set xs. map_of (h @ [(key_of u x, \<lparr>item = x, freq = 1\<rparr>)]) (key_of u y) = None"
  proof
    fix y assume y: "y \<in> set xs"
    with Cons.prems(1) have "key_of u y \<noteq> key_of u x"
      by (metis distinct.simps(2) image_eqI list.simps(9) set_map)
    moreover from y Cons.prems(2) have "map_of h (key_of u y) = None"
      by simp
    ultimately show "map_of (h @ [(key_of u x, \<lparr>item = x, freq = 1\<rparr>)]) (key_of u y) = None"
      by (simp add: map_add_def)
  qed
  with Cons.prems(1) have "foldl (process_a u) (h @ [(key_of u x, \<lparr>item = x, freq = 1\<rparr>)]) xs =
      (h @ [(key_of u x, \<lparr>item = x, freq = 1\<rparr>)]) @ map (\<lambda>v. (key_of u v, \<lparr>item = v, freq = 1\<rparr>)) xs"
    by (intro Cons.IH) simp_all
  then show ?case
    by (simp add: s)
qed

lemma keys_of_out:
  "map (key_of (uid g)) (out_of (Set_process g a b (Some ev))) =
     map fst (filter (\<lambda>p. ev (freq (snd p))) (for_in (process_hist (uid g) a b)))"
proof -
  have "key_of (uid g) (item (snd p)) = fst p" if "p \<in> set (for_in (process_hist (uid g) a b))" for p
    using that key_item_process_hist [of "fst p" "snd p" "uid g" a b] by (simp add: set_for_in)
  then show ?thesis
    by (simp add: out_Set_process)
qed

lemma distinct_keys_of_out:
  "distinct (map (key_of (uid g)) (out_of (Set_process g a b (Some ev))))"
  unfolding keys_of_out
  by (rule distinct_map_filter) (simp add: distinct_for_in distinct_process_hist)

lemma mset_items_clear:
  assumes "distinct (map (key_of (this_uid s)) xs)"
  shows "mset (items (clear s (Some xs))) = mset xs"
proof -
  have h: "hist (clear s (Some xs)) = map (\<lambda>v. (key_of (this_uid s) v, \<lparr>item = v, freq = 1\<rparr>)) xs"
    using foldl_process_a_fresh [OF assms, of "[]"] by (simp add: hist_clear)
  have "mset (items (clear s (Some xs))) =
      image_mset (\<lambda>p. item (snd p)) (mset (for_in (hist (clear s (Some xs)))))"
    by (simp add: items_eq)
  also have "\<dots> = image_mset (\<lambda>p. item (snd p)) (mset (hist (clear s (Some xs))))"
    by (simp only: mset_for_in)
  also have "\<dots> = mset xs"
    by (simp add: h image_mset.compositionality comp_def)
  finally show ?thesis .
qed

lemma mset_after_process:
  assumes "mutable s" and "active_uid s g = this_uid s"
  shows "mset (items (fst (snd (process s c (Some ev) g)))) =
         mset (out_of (fst (process s c (Some ev) g)))"
proof -
  let ?g = "g\<lparr>uid := active_uid s g\<rparr>"
  let ?r = "out_of (Set_process ?g (items s) (operand_items c) (Some ev))"
  have "distinct (map (key_of (uid ?g)) ?r)"
    by (rule distinct_keys_of_out)
  then have "distinct (map (key_of (this_uid s)) ?r)"
    using assms(2) by simp
  then have "mset (items (clear s (Some ?r))) = mset ?r"
    by (rule mset_items_clear)
  then show ?thesis
    using assms(1) by (simp add: receiver_process_Some fst_process)
qed

lemma keyify_eq:
  "keyify s =
     ''{'' @ butlast (concat (sort (map (\<lambda>v. key_type_pair s v @ '','') (items s)))) @ ''}''"
  by (simp add: keyify_def map_set_eq items_eq key_type_pair_def key_of_def comp_def)

lemma butlast_concat_commas:
  "butlast (concat (map (\<lambda>p. p @ '','') ps)) = join '','' ps"
proof (induction ps rule: induct_list012)
  case 1
  show ?case by simp
next
  case (2 x)
  show ?case by simp
next
  case (3 x y ys)
  have "concat (map (\<lambda>p. p @ '','') (y # ys)) \<noteq> []"
    by simp
  then have "butlast (x @ '','' @ concat (map (\<lambda>p. p @ '','') (y # ys))) =
      x @ '','' @ butlast (concat (map (\<lambda>p. p @ '','') (y # ys)))"
    by (simp only: butlast_append append_is_Nil_conv if_False simp_thms)
  then show ?case
    using 3 by simp
qed

lemma sort_commas:
  "map (\<lambda>p. p @ '','') (map butlast (sort (map (\<lambda>p. p @ '','') qs))) =
     sort (map (\<lambda>p. p @ '','') qs)"
proof -
  have "butlast x @ '','' = x" if "x \<in> set (sort (map (\<lambda>p. p @ '','') qs))" for x
    using that by auto
  then have "map (\<lambda>x. butlast x @ '','') (sort (map (\<lambda>p. p @ '','') qs)) =
      sort (map (\<lambda>p. p @ '','') qs)"
    by (rule map_idI)
  then show ?thesis
    by (simp add: comp_def)
qed

lemma mset_strip_commas:
  "mset (map butlast (sort (map (\<lambda>p. p @ '','') qs))) = mset qs"
proof -
  have "mset (map butlast (sort (map (\<lambda>p. p @ '','') qs))) =
      image_mset butlast (mset (sort (map (\<lambda>p. p @ '','') qs)))"
    by simp
  also have "\<dots> = image_mset butlast (image_mset (\<lambda>p. p @ '','') (mset qs))"
    by simp
  also have "\<dots> = mset qs"
    by (simp add: image_mset.compositionality comp_def)
  finally show ?thesis .
qed

lemma sort_mset_cong: "mset xs = mset ys \<Longrightarrow> sort xs = sort ys"
  by (metis sorted_list_of_multiset_mset)

lemma keyify_cong:
  assumes "mset (map (key_type_pair s) (items s)) = mset (map (key_type_pair t) (items t))"
  shows "keyify s = keyify t"
proof -
  have "mset (map (\<lambda>p. p @ '','') (map (key_type_pair s) (items s))) =
      mset (map (\<lambda>p. p @ '','') (map (key_type_pair t) (items t)))"
    using assms by (metis mset_map)
  then have "sort (map (\<lambda>v. key_type_pair s v @ '','') (items s)) =
      sort (map (\<lambda>v. key_type_pair t v @ '','') (items t))"
    by (simp add: sort_mset_cong comp_def)
  then show ?thesis
    by (simp only: keyify_eq)
qed

lemma mset_items: "mset (items s) = image_mset (\<lambda>p. item (snd p)) (mset (hist s))"
  using mset_for_in [of "hist s"] by (simp add: items_eq)

section \<open>The frequency table\<close>

text \<open>
  C4. The table of \<open>Set.process(a, b, evaluator)\<close> has one entry per key. After the first
  loop every key of \<open>a\<close> has code 1 and the first value of \<open>a\<close> with that key as its
  item. Merging a value of \<open>b\<close> enters its key with code 2 when it is absent, turns code 1
  into code 3, and leaves any other entry as it is. In the finished table a key has code 3
  when it is a key of both \<open>a\<close> and \<open>b\<close>, code 1 when only of \<open>a\<close>, code 2 when only of
  \<open>b\<close>, and no entry otherwise; so two pairs of inputs with the same sets of keys give
  every key the same code, whatever the multiplicities.
\<close>

theorem process_codes:
  "Set_process g a b None = Hist (process_hist (uid g) a b)
   \<and> distinct (map fst (process_hist u a b))
   \<and> map_of (foldl (process_a u) [] a) k =
         map_option (\<lambda>v. \<lparr>item = v, freq = 1\<rparr>) (find (\<lambda>v. key_of u v = k) a)
   \<and> map_of (process_b u h y) (key_of u y) =
         (case map_of h (key_of u y) of
            None \<Rightarrow> Some \<lparr>item = y, freq = 2\<rparr>
          | Some e \<Rightarrow> Some (if freq e = 1 then e\<lparr>freq := 3\<rparr> else e))
   \<and> map_of (process_hist u a b) k =
         (case find (\<lambda>v. key_of u v = k) a of
            Some v \<Rightarrow> Some \<lparr>item = v, freq = (if k \<in> key_of u ` set b then 3 else 1)\<rparr>
          | None \<Rightarrow> map_option (\<lambda>v. \<lparr>item = v, freq = 2\<rparr>) (find (\<lambda>v. key_of u v = k) b))
   \<and> map_option freq (map_of (process_hist u a b) k) =
         (if k \<in> key_of u ` set a \<and> k \<in> key_of u ` set b then Some 3
          else if k \<in> key_of u ` set a then Some 1
          else if k \<in> key_of u ` set b then Some 2
          else None)
   \<and> (key_of u ` set a' = key_of u ` set a \<and> key_of u ` set b' = key_of u ` set b \<longrightarrow>
        map_option freq (map_of (process_hist u a' b') k) =
        map_option freq (map_of (process_hist u a b) k))"
proof -
  have 1: "Set_process g a b None = Hist (process_hist (uid g) a b)"
    by (simp add: Set_process_def)
  have 3: "map_of (foldl (process_a u) [] a) k =
         map_option (\<lambda>v. \<lparr>item = v, freq = 1\<rparr>) (find (\<lambda>v. key_of u v = k) a)"
    by (simp add: map_of_foldl_process_a)
  have 4: "map_of (process_b u h y) (key_of u y) =
         (case map_of h (key_of u y) of
            None \<Rightarrow> Some \<lparr>item = y, freq = 2\<rparr>
          | Some e \<Rightarrow> Some (if freq e = 1 then e\<lparr>freq := 3\<rparr> else e))"
    by (simp add: map_of_process_b split: option.splits)
  have 7: "key_of u ` set a' = key_of u ` set a \<and> key_of u ` set b' = key_of u ` set b \<longrightarrow>
        map_option freq (map_of (process_hist u a' b') k) =
        map_option freq (map_of (process_hist u a b) k)"
    by (simp only: freq_process_hist) simp
  show ?thesis
    using 1 3 4 7 distinct_process_hist [of u a b] map_of_process_hist [of u a b k]
      freq_process_hist [of u a b k]
    by blast
qed

text \<open>C4 at \<open>a = [1,1,2]\<close>, \<open>b = [2,3,3]\<close>, against \<open>[1,2]\<close> and \<open>[2,3]\<close>.\<close>

theorem process_codes_witness:
  "key_of identity_uid ` set [JNum 1, JNum 2] = key_of identity_uid ` set [JNum 1, JNum 1, JNum 2]
   \<and> key_of identity_uid ` set [JNum 2, JNum 3] = key_of identity_uid ` set [JNum 2, JNum 3, JNum 3]
   \<and> map_option freq (map_of (process_hist identity_uid [JNum 1, JNum 2] [JNum 2, JNum 3]) ''2'') =
       map_option freq
         (map_of (process_hist identity_uid [JNum 1, JNum 1, JNum 2] [JNum 2, JNum 3, JNum 3]) ''2'')
   \<and> map_option freq
         (map_of (process_hist identity_uid [JNum 1, JNum 1, JNum 2] [JNum 2, JNum 3, JNum 3]) ''2'') =
       Some 3"
proof -
  have k1: "key_of identity_uid ` set [JNum 1, JNum 2] =
      key_of identity_uid ` set [JNum 1, JNum 1, JNum 2]"
    by code_simp
  have k2: "key_of identity_uid ` set [JNum 2, JNum 3] =
      key_of identity_uid ` set [JNum 2, JNum 3, JNum 3]"
    by code_simp
  have m1: "''2'' \<in> key_of identity_uid ` set [JNum 1, JNum 1, JNum 2]"
    by code_simp
  have m2: "''2'' \<in> key_of identity_uid ` set [JNum 2, JNum 3, JNum 3]"
    by code_simp
  note t = process_codes [where u = identity_uid and a = "[JNum 1, JNum 1, JNum 2]"
      and b = "[JNum 2, JNum 3, JNum 3]" and a' = "[JNum 1, JNum 2]" and b' = "[JNum 2, JNum 3]"
      and k = "''2''"]
  note c6 = t [THEN conjunct2, THEN conjunct2, THEN conjunct2, THEN conjunct2, THEN conjunct2,
      THEN conjunct1]
  note c7 = t [THEN conjunct2, THEN conjunct2, THEN conjunct2, THEN conjunct2, THEN conjunct2,
      THEN conjunct2]
  from c7 k1 k2 have e: "map_option freq
        (map_of (process_hist identity_uid [JNum 1, JNum 2] [JNum 2, JNum 3]) ''2'') =
      map_option freq
        (map_of (process_hist identity_uid [JNum 1, JNum 1, JNum 2] [JNum 2, JNum 3, JNum 3]) ''2'')"
    by blast
  have c: "map_option freq
        (map_of (process_hist identity_uid [JNum 1, JNum 1, JNum 2] [JNum 2, JNum 3, JNum 3]) ''2'') =
      Some 3"
    by (simp only: c6 m1 m2 simp_thms if_True)
  from k1 k2 e c show ?thesis
    by blast
qed


section \<open>Canonical serialization\<close>

text \<open>
  C1 (as the code has it). \<open>keyify()\<close> returns \<open>{p1,p2,...}\<close>: one pair \<open>key:typeCode\<close> per
  entry, the type code being the code of the item's built-in type (4 for a Number) and not
  a count; the pairs are separated by commas with no trailing separator, and they are
  sorted as the strings \<open>key:typeCode,\<close>. A set with no entry gives \<open>{}\<close>. Two sets with the
  same multiset of pairs give the same string, so the insertion order does not matter.
  A set built from \<open>[7,8,8,9,9,9]\<close> gives \<open>{7:4,8:4,9:4}\<close>.
\<close>

theorem keyify_key_type_pairs:
  "(let ps = map butlast (sort (map (\<lambda>v. key_type_pair s v @ '','') (items s))) in
      keyify s = ''{'' @ join '','' ps @ ''}''
    \<and> mset ps = mset (map (key_type_pair s) (items s))
    \<and> length ps = size_set s
    \<and> sorted (map (\<lambda>p. p @ '','') ps))
   \<and> (hist s = [] \<longrightarrow> keyify s = ''{}'')
   \<and> keyify (Set_new [] h) = ''{}''
   \<and> (mset (map (key_type_pair s) (items s)) = mset (map (key_type_pair t) (items t)) \<longrightarrow>
        keyify s = keyify t)
   \<and> (hashFn s = hashFn t \<and> mset (hist s) = mset (hist t) \<longrightarrow> keyify s = keyify t)
   \<and> keyify (Set_new [JNum 7, JNum 8, JNum 8, JNum 9, JNum 9, JNum 9] None) = ''{7:4,8:4,9:4}''
   \<and> keyify (Set_new [JNum 9, JNum 8, JNum 9, JNum 7, JNum 8, JNum 9] None) = ''{7:4,8:4,9:4}''"
proof -
  let ?qs = "map (key_type_pair s) (items s)"
  let ?ps = "map butlast (sort (map (\<lambda>v. key_type_pair s v @ '','') (items s)))"
  have ps: "?ps = map butlast (sort (map (\<lambda>p. p @ '','') ?qs))"
    by (simp add: comp_def)
  have c: "map (\<lambda>p. p @ '','') ?ps = sort (map (\<lambda>v. key_type_pair s v @ '','') (items s))"
    using sort_commas [of ?qs] by (simp add: comp_def)
  have 1: "keyify s = ''{'' @ join '','' ?ps @ ''}''"
    using butlast_concat_commas [of ?ps] by (simp only: keyify_eq c)
  have 2: "mset ?ps = mset ?qs"
    using mset_strip_commas [of ?qs] by (simp only: ps)
  have 3: "length ?ps = size_set s"
    by (simp add: size_set_def)
  have 4: "sorted (map (\<lambda>p. p @ '','') ?ps)"
    unfolding c by simp
  have 5: "hist s = [] \<longrightarrow> keyify s = ''{}''"
    by (simp add: keyify_eq items_eq for_in_def)
  have 6: "keyify (Set_new [] h) = ''{}''"
    by (simp add: keyify_eq items_eq for_in_def Set_new_def add_def)
  have 7: "mset ?qs = mset (map (key_type_pair t) (items t)) \<longrightarrow> keyify s = keyify t"
    using keyify_cong [of s t] by blast
  have 8: "hashFn s = hashFn t \<and> mset (hist s) = mset (hist t) \<longrightarrow> keyify s = keyify t"
  proof
    assume a: "hashFn s = hashFn t \<and> mset (hist s) = mset (hist t)"
    then have "key_type_pair s = key_type_pair t"
      by (simp add: key_type_pair_def this_uid_def fun_eq_iff)
    moreover from a have "mset (items s) = mset (items t)"
      by (simp add: mset_items)
    ultimately have "mset ?qs = mset (map (key_type_pair t) (items t))"
      by (metis mset_map)
    then show "keyify s = keyify t"
      by (rule keyify_cong)
  qed
  have 9: "keyify (Set_new [JNum 7, JNum 8, JNum 8, JNum 9, JNum 9, JNum 9] None) = ''{7:4,8:4,9:4}''"
    by code_simp
  have 10: "keyify (Set_new [JNum 9, JNum 8, JNum 9, JNum 7, JNum 8, JNum 9] None) = ''{7:4,8:4,9:4}''"
    by code_simp
  from 1 2 3 4 have "let ps = ?ps in
      keyify s = ''{'' @ join '','' ps @ ''}''
    \<and> mset ps = mset (map (key_type_pair s) (items s))
    \<and> length ps = size_set s
    \<and> sorted (map (\<lambda>p. p @ '','') ps)"
    unfolding Let_def by blast
  with 5 6 7 8 9 10 show ?thesis
    by blast
qed

text \<open>
  C1 on the sets of \<open>['b','a']\<close> and \<open>['a','b']\<close>, whose entries are in different orders,
  and on the empty set.
\<close>

theorem keyify_key_type_pairs_witness:
  "hashFn (Set_new [JStr ''b'', JStr ''a''] None) = hashFn (Set_new [JStr ''a'', JStr ''b''] None)
   \<and> hist (Set_new [JStr ''b'', JStr ''a''] None) =
       [(''b'', \<lparr>item = JStr ''b'', freq = 1\<rparr>), (''a'', \<lparr>item = JStr ''a'', freq = 1\<rparr>)]
   \<and> hist (Set_new [JStr ''a'', JStr ''b''] None) =
       [(''a'', \<lparr>item = JStr ''a'', freq = 1\<rparr>), (''b'', \<lparr>item = JStr ''b'', freq = 1\<rparr>)]
   \<and> mset (hist (Set_new [JStr ''b'', JStr ''a''] None)) =
       mset (hist (Set_new [JStr ''a'', JStr ''b''] None))
   \<and> keyify (Set_new [JStr ''b'', JStr ''a''] None) = keyify (Set_new [JStr ''a'', JStr ''b''] None)
   \<and> hist (Set_new [] None) = []
   \<and> keyify (Set_new [] None) = ''{}''"
proof -
  let ?s = "Set_new [JStr ''b'', JStr ''a''] None"
  let ?t = "Set_new [JStr ''a'', JStr ''b''] None"
  have hh: "hashFn ?s = hashFn ?t"
    by (simp add: Set_new_def add_fields)
  have hs: "hist ?s =
      [(''b'', \<lparr>item = JStr ''b'', freq = 1\<rparr>), (''a'', \<lparr>item = JStr ''a'', freq = 1\<rparr>)]"
    by code_simp
  have ht: "hist ?t =
      [(''a'', \<lparr>item = JStr ''a'', freq = 1\<rparr>), (''b'', \<lparr>item = JStr ''b'', freq = 1\<rparr>)]"
    by code_simp
  have m: "mset (hist ?s) = mset (hist ?t)"
    unfolding hs ht by (simp add: add_mset_commute)
  have e: "hist (Set_new [] None) = []"
    by (simp add: Set_new_def add_def)
  note t1 = keyify_key_type_pairs [where s = ?s and t = ?t]
  note t2 = keyify_key_type_pairs [where s = "Set_new [] None"]
  from t1 hh m have 1: "keyify ?s = keyify ?t"
    by blast
  from t2 e have 2: "keyify (Set_new [] None) = ''{}''"
    by blast
  from hh hs ht m e 1 2 show ?thesis
    by blast
qed

text \<open>
  C1 (as the claim states it) fails: the set of \<open>[7,8,8,9,9,9]\<close> does not give
  \<open>{7:1,8:2,9:3}\<close>, and the pairs of the set of \<open>[1,10]\<close> are not in the order of their keys.
\<close>

theorem keyify_counts_counterexample:
  "keyify (Set_new [JNum 7, JNum 8, JNum 8, JNum 9, JNum 9, JNum 9] None) \<noteq> ''{7:1,8:2,9:3}''
   \<and> keyify (Set_new [JNum 7, JNum 8, JNum 8, JNum 9, JNum 9, JNum 9] None) = ''{7:4,8:4,9:4}''
   \<and> keyify (Set_new [JNum 1, JNum 10] None) = ''{10:4,1:4}''"
  by code_simp

section \<open>Adding values\<close>

text \<open>
  C2 (as the code has it). For each value of \<open>add(v1, ..., vn)\<close>, in order, the key is
  derived; when the key is absent an entry with count 1 and the value as its item is
  appended; when the key is present the set is left as it is: the count is not incremented
  and the item is not replaced. \<open>add\<close> returns the receiver, with the same \<open>hashFn\<close> and
  \<open>mutable\<close>, and every value added has an entry afterwards. So the entry of a key is the
  one the set had, or else the first of the values with that key, with count 1.
\<close>

theorem add_keeps_first:
  "(map_of (hist s) (key_of (this_uid s) v) = None \<longrightarrow>
      hist (add_arg s v) = hist s @ [(key_of (this_uid s) v, \<lparr>item = v, freq = 1\<rparr>)])
   \<and> (map_of (hist s) (key_of (this_uid s) v) \<noteq> None \<longrightarrow> add_arg s v = s)
   \<and> add s [] = s
   \<and> add s (v # vs) = add (add_arg s v) vs
   \<and> hashFn (add s vs) = hashFn s
   \<and> mutable (add s vs) = mutable s
   \<and> (\<forall>x\<in>set vs. map_of (hist (add s vs)) (key_of (this_uid s) x) \<noteq> None)
   \<and> map_of (hist (add s vs)) k =
        (case map_of (hist s) k of
           Some e \<Rightarrow> Some e
         | None \<Rightarrow> map_option (\<lambda>x. \<lparr>item = x, freq = 1\<rparr>)
                     (find (\<lambda>x. key_of (this_uid s) x = k) vs))"
proof -
  have m: "map_of (hist (add s vs)) k =
        (case map_of (hist s) k of
           Some e \<Rightarrow> Some e
         | None \<Rightarrow> map_option (\<lambda>x. \<lparr>item = x, freq = 1\<rparr>)
                     (find (\<lambda>x. key_of (this_uid s) x = k) vs))" for k
    by (simp add: hist_add map_of_foldl_process_a)
  have p: "\<forall>x\<in>set vs. map_of (hist (add s vs)) (key_of (this_uid s) x) \<noteq> None"
  proof
    fix x assume "x \<in> set vs"
    then have "find (\<lambda>y. key_of (this_uid s) y = key_of (this_uid s) x) vs \<noteq> None"
      by (auto simp: find_None_iff)
    then show "map_of (hist (add s vs)) (key_of (this_uid s) x) \<noteq> None"
      unfolding m by (simp split: option.splits)
  qed
  have a: "add s [] = s" "add s (v # vs) = add (add_arg s v) vs"
    by (simp_all add: add_def)
  from a p m [of k] add_fields [of s vs] add_arg_present [of s v] add_arg_absent [of s v]
  show ?thesis
    by blast
qed

text \<open>C2 on the set of \<open>[7]\<close>: \<open>8\<close> is absent, \<open>'7'\<close> has the key of \<open>7\<close>.\<close>

theorem add_keeps_first_witness:
  "map_of (hist (Set_new [JNum 7] None)) (key_of (this_uid (Set_new [JNum 7] None)) (JNum 8)) = None
   \<and> hist (add_arg (Set_new [JNum 7] None) (JNum 8)) =
       hist (Set_new [JNum 7] None)
       @ [(key_of (this_uid (Set_new [JNum 7] None)) (JNum 8), \<lparr>item = JNum 8, freq = 1\<rparr>)]
   \<and> map_of (hist (Set_new [JNum 7] None)) (key_of (this_uid (Set_new [JNum 7] None)) (JStr ''7''))
       \<noteq> None
   \<and> add_arg (Set_new [JNum 7] None) (JStr ''7'') = Set_new [JNum 7] None
   \<and> map_of (hist (add (Set_new [JNum 7] None) [JStr ''7'', JNum 8]))
         (key_of (this_uid (Set_new [JNum 7] None)) (JStr ''7'')) \<noteq> None"
proof -
  let ?s = "Set_new [JNum 7] None"
  have n: "map_of (hist ?s) (key_of (this_uid ?s) (JNum 8)) = None"
    by code_simp
  have p: "map_of (hist ?s) (key_of (this_uid ?s) (JStr ''7'')) \<noteq> None"
    by code_simp
  note t1 = add_keeps_first [where s = ?s and v = "JNum 8"]
  note t2 = add_keeps_first [where s = ?s and v = "JStr ''7''" and vs = "[JStr ''7'', JNum 8]"]
  from t1 n have 1: "hist (add_arg ?s (JNum 8)) =
       hist ?s @ [(key_of (this_uid ?s) (JNum 8), \<lparr>item = JNum 8, freq = 1\<rparr>)]"
    by blast
  from t2 p have 2: "add_arg ?s (JStr ''7'') = ?s"
    by blast
  from t2 have "\<forall>x\<in>set [JStr ''7'', JNum 8].
      map_of (hist (add ?s [JStr ''7'', JNum 8])) (key_of (this_uid ?s) x) \<noteq> None"
    by blast
  then have 3: "map_of (hist (add ?s [JStr ''7'', JNum 8])) (key_of (this_uid ?s) (JStr ''7'')) \<noteq> None"
    by simp
  from n p 1 2 3 show ?thesis
    by blast
qed

text \<open>
  C2 (as the claim states it) fails: adding \<open>1\<close> to the set of \<open>[1]\<close>, once or twice,
  leaves the count of its entry at 1.
\<close>

theorem add_no_increment_counterexample:
  "map_of (hist (Set_new [JNum 1] None)) ''1'' = Some \<lparr>item = JNum 1, freq = 1\<rparr>
   \<and> map_of (hist (add (Set_new [JNum 1] None) [JNum 1])) ''1'' = Some \<lparr>item = JNum 1, freq = 1\<rparr>
   \<and> map_of (hist (add (Set_new [JNum 1] None) [JNum 1, JNum 1])) ''1'' \<noteq> Some \<lparr>item = JNum 1, freq = 3\<rparr>"
  by code_simp

section \<open>The key function in force\<close>

text \<open>
  C8. The constructor keeps the \<open>hashFn\<close> it is given. A set operation of an instance with
  a \<open>hashFn\<close> runs \<open>Set.process\<close> in the state that \<open>pushUid(hashFn)\<close> gives, where
  \<open>hashFn\<close> is the active key function, and leaves the state that \<open>popUid\<close> gives from
  there; an instance without one runs it in the state it finds and leaves that state.
  \<open>pushUid\<close> makes its argument the active key function, and the \<open>popUid\<close> that follows
  returns it and restores the stack and the active function as they were before the push,
  whatever had been pushed before. So every set operation of an instance leaves the stack
  and the active function as it found them. The stack is never emptied: with one function
  left, \<open>popUid\<close> returns \<open>null\<close> and changes nothing.
\<close>

theorem uid_stack_nests:
  "uid_wf uid_init
   \<and> uid_wf (snd (pushUid m g))
   \<and> (uid_wf g \<longrightarrow> uid_wf (snd (popUid g)))
   \<and> uid (snd (pushUid m g)) = m
   \<and> (uid_wf g \<longrightarrow> popUid (snd (pushUid m g)) = (Some m, g))
   \<and> (uid_wf g \<longrightarrow> snd (snd (process s c ev g)) = g)
   \<and> (uid_wf g \<longrightarrow>
        snd (snd (union_set s c g)) = g \<and> snd (snd (intersection s c g)) = g
        \<and> snd (snd (difference s c g)) = g \<and> snd (snd (complement s c g)) = g
        \<and> snd (snd (equals s c g)) = g)
   \<and> popUid uid_init = (None, uid_init)
   \<and> (uidList g \<noteq> [] \<longrightarrow> uidList (snd (popUid g)) \<noteq> [])
   \<and> (length (uidList g) = 1 \<longrightarrow>
        fst (popUid g) = None \<and> uidList (snd (popUid g)) = uidList g)
   \<and> hashFn (Set_new a h) = h
   \<and> hashFn (set_mutable s) = hashFn s
   \<and> (hashFn s = Some f \<longrightarrow>
        fst (process s c ev g) =
          Set_process (snd (pushUid f g)) (items s) (operand_items c) ev
        \<and> snd (snd (process s c ev g)) = snd (popUid (snd (pushUid f g)))
        \<and> fst (union_set s c g) =
            Out (Set_union (snd (pushUid f g)) (items s) (operand_items c))
        \<and> fst (intersection s c g) =
            Out (Set_intersection (snd (pushUid f g)) (items s) (operand_items c))
        \<and> fst (difference s c g) =
            Out (Set_difference (snd (pushUid f g)) (items s) (operand_items c))
        \<and> fst (complement s c g) =
            Out (Set_complement (snd (pushUid f g)) (items s) (operand_items c))
        \<and> fst (equals s c g) = Set_equals (snd (pushUid f g)) (items s) (operand_items c))
   \<and> (hashFn s = None \<longrightarrow>
        fst (process s c ev g) = Set_process g (items s) (operand_items c) ev
        \<and> snd (snd (process s c ev g)) = g)"
proof -
  have i: "uid_wf uid_init"
    by (simp add: uid_wf_def uid_init_def)
  have p: "uid_wf g \<longrightarrow> uid_wf (snd (popUid g))"
    using uid_wf_pop [of g] unfolding uid_wf_def [of g] by blast
  have u: "uid (snd (pushUid m g)) = m"
    by (simp add: pushUid_def)
  have e: "snd (snd (equals s c g)) = snd (snd (process s c None g))"
    by (simp add: equals_def split: prod.splits)
  have o: "uid_wf g \<longrightarrow>
        snd (snd (union_set s c g)) = g \<and> snd (snd (intersection s c g)) = g
        \<and> snd (snd (difference s c g)) = g \<and> snd (snd (complement s c g)) = g
        \<and> snd (snd (equals s c g)) = g"
    by (simp add: e union_set_def intersection_def difference_def complement_def process_uid_state)
  have b: "popUid uid_init = (None, uid_init)"
    by (simp add: popUid_def uid_init_def)
  have n: "uidList g \<noteq> [] \<longrightarrow> uidList (snd (popUid g)) \<noteq> []"
    using uid_wf_pop [of g] unfolding uid_wf_def [of "snd (popUid g)"] by blast
  have l: "length (uidList g) = 1 \<longrightarrow>
        fst (popUid g) = None \<and> uidList (snd (popUid g)) = uidList g"
    by (simp add: popUid_def)
  have k: "hashFn (Set_new a h) = h" "hashFn (set_mutable s) = hashFn s"
    by (simp_all add: Set_new_def add_fields set_mutable_def)
  have q: "fst (equals s c g) = min_max_3 (fst (process s c None g))"
    by (simp add: equals_def split: prod.splits)
  have hs: "hashFn s = Some f \<longrightarrow>
        fst (process s c ev g) =
          Set_process (snd (pushUid f g)) (items s) (operand_items c) ev
        \<and> snd (snd (process s c ev g)) = snd (popUid (snd (pushUid f g)))
        \<and> fst (union_set s c g) =
            Out (Set_union (snd (pushUid f g)) (items s) (operand_items c))
        \<and> fst (intersection s c g) =
            Out (Set_intersection (snd (pushUid f g)) (items s) (operand_items c))
        \<and> fst (difference s c g) =
            Out (Set_difference (snd (pushUid f g)) (items s) (operand_items c))
        \<and> fst (complement s c g) =
            Out (Set_complement (snd (pushUid f g)) (items s) (operand_items c))
        \<and> fst (equals s c g) = Set_equals (snd (pushUid f g)) (items s) (operand_items c)"
  proof
    assume f: "hashFn s = Some f"
    have r: "fst (process s c ev' g) =
        Set_process (snd (pushUid f g)) (items s) (operand_items c) ev'" for ev'
      by (simp add: process_def Let_def f)
    have t: "snd (snd (process s c ev g)) = snd (popUid (snd (pushUid f g)))"
      by (simp add: process_def Let_def f)
    have x: "Set_process g' a' b' (Some ev') = Out (out_of (Set_process g' a' b' (Some ev')))"
      for g' a' b' ev'
      by (simp add: Set_process_def out_of_def)
    show "fst (process s c ev g) =
          Set_process (snd (pushUid f g)) (items s) (operand_items c) ev
        \<and> snd (snd (process s c ev g)) = snd (popUid (snd (pushUid f g)))
        \<and> fst (union_set s c g) =
            Out (Set_union (snd (pushUid f g)) (items s) (operand_items c))
        \<and> fst (intersection s c g) =
            Out (Set_intersection (snd (pushUid f g)) (items s) (operand_items c))
        \<and> fst (difference s c g) =
            Out (Set_difference (snd (pushUid f g)) (items s) (operand_items c))
        \<and> fst (complement s c g) =
            Out (Set_complement (snd (pushUid f g)) (items s) (operand_items c))
        \<and> fst (equals s c g) = Set_equals (snd (pushUid f g)) (items s) (operand_items c)"
      unfolding union_set_def intersection_def difference_def complement_def q r t
        Set_union_def Set_intersection_def Set_difference_def Set_complement_def Set_equals_def
      using x by blast
  qed
  have hn: "hashFn s = None \<longrightarrow>
        fst (process s c ev g) = Set_process g (items s) (operand_items c) ev
        \<and> snd (snd (process s c ev g)) = g"
    by (simp add: process_def Let_def)
  from i p u o b n l k hs hn uid_wf_push [of m g] pop_push [of g m]
    process_uid_state [of g s c ev]
  show ?thesis
    by blast
qed

text \<open>
  C8 with the function \<open>function() { return [this]; }\<close> pushed first: pushing and popping
  a second function leaves the first active, and an instance whose \<open>hashFn\<close> gives every
  value the key \<open>k\<close> intersects \<open>[1,2]\<close> with \<open>[5]\<close> under its own \<open>hashFn\<close> (the result is
  \<open>[1]\<close>, where the pushed function would give \<open>[]\<close>) and leaves the first active.
\<close>

theorem uid_stack_nests_witness:
  "uid_wf (snd (pushUid (\<lambda>this. JArray [this]) uid_init))
   \<and> uid (snd (pushUid (\<lambda>this. JArray [this]) uid_init)) = (\<lambda>this. JArray [this])
   \<and> popUid (snd (pushUid (\<lambda>this. JUndefined) (snd (pushUid (\<lambda>this. JArray [this]) uid_init)))) =
       (Some (\<lambda>this. JUndefined), snd (pushUid (\<lambda>this. JArray [this]) uid_init))
   \<and> hashFn (Set_new [JNum 1, JNum 2] (Some (\<lambda>this. JStr ''k''))) = Some (\<lambda>this. JStr ''k'')
   \<and> fst (intersection (Set_new [JNum 1, JNum 2] (Some (\<lambda>this. JStr ''k''))) (ArrayArg [JNum 5])
         (snd (pushUid (\<lambda>this. JArray [this]) uid_init))) =
       Out (Set_intersection
             (snd (pushUid (\<lambda>this. JStr ''k'') (snd (pushUid (\<lambda>this. JArray [this]) uid_init))))
             (items (Set_new [JNum 1, JNum 2] (Some (\<lambda>this. JStr ''k''))))
             (operand_items (ArrayArg [JNum 5])))
   \<and> fst (intersection (Set_new [JNum 1, JNum 2] (Some (\<lambda>this. JStr ''k''))) (ArrayArg [JNum 5])
         (snd (pushUid (\<lambda>this. JArray [this]) uid_init))) = Out [JNum 1]
   \<and> Set_intersection (snd (pushUid (\<lambda>this. JArray [this]) uid_init))
         (items (Set_new [JNum 1, JNum 2] (Some (\<lambda>this. JStr ''k''))))
         (operand_items (ArrayArg [JNum 5])) = []
   \<and> snd (snd (intersection (Set_new [JNum 1, JNum 2] (Some (\<lambda>this. JStr ''k'')))
         (ArrayArg [JNum 5]) (snd (pushUid (\<lambda>this. JArray [this]) uid_init)))) =
       snd (pushUid (\<lambda>this. JArray [this]) uid_init)
   \<and> uidList uid_init \<noteq> []
   \<and> uidList (snd (popUid uid_init)) \<noteq> []"
proof -
  let ?g = "snd (pushUid (\<lambda>this. JArray [this]) uid_init)"
  let ?s = "Set_new [JNum 1, JNum 2] (Some (\<lambda>this. JStr ''k''))"
  let ?c = "ArrayArg [JNum 5]"
  note t0 = uid_stack_nests [where g = uid_init and m = "\<lambda>this. JArray [this]"]
  note t1 = uid_stack_nests [where g = ?g and m = "\<lambda>this. JUndefined" and s = ?s and c = ?c
      and a = "[JNum 1, JNum 2]" and h = "Some (\<lambda>this. JStr ''k'')" and f = "\<lambda>this. JStr ''k''"]
  from t0 have w: "uid_wf ?g" and u: "uid ?g = (\<lambda>this. JArray [this])"
    by blast+
  from t1 w have 1: "popUid (snd (pushUid (\<lambda>this. JUndefined) ?g)) = (Some (\<lambda>this. JUndefined), ?g)"
    by blast
  from t1 have hf: "hashFn ?s = Some (\<lambda>this. JStr ''k'')"
    by blast
  from t1 hf have 2: "fst (intersection ?s ?c ?g) =
      Out (Set_intersection (snd (pushUid (\<lambda>this. JStr ''k'') ?g)) (items ?s) (operand_items ?c))"
    by blast
  have 3: "fst (intersection ?s ?c ?g) = Out [JNum 1]"
    by code_simp
  have 4: "Set_intersection ?g (items ?s) (operand_items ?c) = []"
    by code_simp
  from t1 w have 5: "snd (snd (intersection ?s ?c ?g)) = ?g"
    by blast
  have 6: "uidList uid_init \<noteq> []"
    by (simp add: uid_init_def)
  from t0 6 have 7: "uidList (snd (popUid uid_init)) \<noteq> []"
    by blast
  from w u 1 hf 2 3 4 5 6 7 show ?thesis
    by blast
qed

section \<open>Default keys and wrapped values\<close>

text \<open>
  C9. Under the default key function the number \<open>2\<close> and the string \<open>'2'\<close> have the same
  key (as have every integral number and its decimal string), and adding both gives one
  entry. A wrapped number has the key \<open>(n:4)\<close> and a wrapped string the key \<open>(x:5)\<close>, 4 and
  5 being the type codes of Number and String, so the two keys always differ; a set of
  \<open>wrap(1)\<close> has \<open>wrap(1)\<close> and has not \<open>wrap('1')\<close>, and \<open>wrap(1)\<close>, \<open>wrap('1')\<close> are two
  members.
\<close>

theorem wrap_disambiguates:
  "key_of identity_uid (JNum 2) = key_of identity_uid (JStr ''2'')
   \<and> key_of identity_uid (JNum n) = key_of identity_uid (JStr (num_to_str (sint n)))
   \<and> this_uid (Set_new a None) = identity_uid
   \<and> hist (Set_new [JNum 2, JStr ''2''] None) = [(''2'', \<lparr>item = JNum 2, freq = 1\<rparr>)]
   \<and> size_set (Set_new [JNum 2, JStr ''2''] None) = 1
   \<and> toStr (wrapObj None (JNum 1)) = ''(1:4)''
   \<and> toStr (wrapObj None (JStr ''1'')) = ''(1:5)''
   \<and> toStr (wrapObj None (JNum n)) = ''('' @ num_to_str (sint n) @ '':4)''
   \<and> toStr (wrapObj None (JStr x)) = ''('' @ x @ '':5)''
   \<and> key_of identity_uid (wrapObj None (JNum n)) \<noteq> key_of identity_uid (wrapObj None (JStr x))
   \<and> has (Set_new [wrapObj None (JNum 1)] None) (wrapObj None (JStr ''1'')) = False
   \<and> has (Set_new [wrapObj None (JNum 1)] None) (wrapObj None (JNum 1)) = True
   \<and> size_set (Set_new [wrapObj None (JNum 1), wrapObj None (JStr ''1'')] None) = 2"
proof -
  have 1: "key_of identity_uid (JNum 2) = key_of identity_uid (JStr ''2'')"
    by code_simp
  have 2: "key_of identity_uid (JNum n) = key_of identity_uid (JStr (num_to_str (sint n)))"
    by (simp add: key_of_def identity_uid_def)
  have 3: "this_uid (Set_new a None) = identity_uid"
    by (simp add: this_uid_def Set_new_def add_fields identity_uid_def fun_eq_iff)
  have 4: "hist (Set_new [JNum 2, JStr ''2''] None) = [(''2'', \<lparr>item = JNum 2, freq = 1\<rparr>)]"
    by code_simp
  have 5: "size_set (Set_new [JNum 2, JStr ''2''] None) = 1"
    by code_simp
  have 6: "toStr (wrapObj None (JNum 1)) = ''(1:4)''"
    by code_simp
  have 7: "toStr (wrapObj None (JStr ''1'')) = ''(1:5)''"
    by code_simp
  have 10: "key_of identity_uid (wrapObj None (JNum n)) \<noteq> key_of identity_uid (wrapObj None (JStr x))"
    unfolding key_of_def identity_uid_def toStr_wrap_Num toStr_wrap_Str by simp
  have 11: "has (Set_new [wrapObj None (JNum 1)] None) (wrapObj None (JStr ''1'')) = False"
    by code_simp
  have 12: "has (Set_new [wrapObj None (JNum 1)] None) (wrapObj None (JNum 1)) = True"
    by code_simp
  have 13: "size_set (Set_new [wrapObj None (JNum 1), wrapObj None (JStr ''1'')] None) = 2"
    by code_simp
  from 1 2 3 4 5 6 7 10 11 12 13 toStr_wrap_Num [of n] toStr_wrap_Str [of x] show ?thesis
    by blast
qed

section \<open>Equality of sets\<close>

text \<open>
  C3 (as the code has it). When \<open>a\<close> and \<open>b\<close> are not both empty, \<open>Set.equals(a, b)\<close> is
  true exactly when \<open>a\<close> and \<open>b\<close> have the same set of keys under the active key
  function, which is exactly when every entry of the table has code 3. It is reflexive on a
  non-empty \<open>a\<close> and symmetric. The prototype's \<open>equals\<close> is \<open>Set.equals\<close> on the items of
  the receiver and of the operand under the receiver's key function; it is reflexive on a
  non-empty set, and symmetric for two sets that use the same key function.
\<close>

theorem equals_same_keys:
  "(a \<noteq> [] \<or> b \<noteq> [] \<longrightarrow>
      (Set_equals g a b \<longleftrightarrow> key_of (uid g) ` set a = key_of (uid g) ` set b)
    \<and> (Set_equals g a b \<longleftrightarrow> (\<forall>p\<in>set (process_hist (uid g) a b). freq (snd p) = 3)))
   \<and> (a \<noteq> [] \<longrightarrow> Set_equals g a a)
   \<and> Set_equals g a b = Set_equals g b a
   \<and> fst (equals s c g) = Set_equals (g\<lparr>uid := active_uid s g\<rparr>) (items s) (operand_items c)
   \<and> (hist s \<noteq> [] \<longrightarrow> fst (equals s (SetArg s) g))
   \<and> (active_uid s g = active_uid t g \<longrightarrow>
        fst (equals s (SetArg t) g) = fst (equals t (SetArg s) g))"
proof -
  have 1: "a \<noteq> [] \<or> b \<noteq> [] \<longrightarrow>
      (Set_equals g a b \<longleftrightarrow> key_of (uid g) ` set a = key_of (uid g) ` set b)
    \<and> (Set_equals g a b \<longleftrightarrow> (\<forall>p\<in>set (process_hist (uid g) a b). freq (snd p) = 3))"
    by (simp add: Set_equals_iff all_3_iff)
  have 2: "a \<noteq> [] \<longrightarrow> Set_equals g a a"
    by (simp add: Set_equals_iff)
  have 3: "Set_equals g a b = Set_equals g b a"
    unfolding Set_equals_iff by (rule iffI) blast+
  have 5: "hist s \<noteq> [] \<longrightarrow> fst (equals s (SetArg s) g)"
    by (simp add: fst_equals Set_equals_iff operand_items_def items_Nil_iff)
  have 6: "active_uid s g = active_uid t g \<longrightarrow>
        fst (equals s (SetArg t) g) = fst (equals t (SetArg s) g)"
  proof
    assume e: "active_uid s g = active_uid t g"
    have o: "operand_items (SetArg x) = items x" for x
      by (simp add: operand_items_def)
    show "fst (equals s (SetArg t) g) = fst (equals t (SetArg s) g)"
      unfolding fst_equals Set_equals_iff o e by (rule iffI) blast+
  qed
  from 1 2 3 5 6 fst_equals [of s c g] show ?thesis
    by blast
qed

text \<open>C3 on \<open>[1,1,2]\<close> against \<open>[1,2,2]\<close> and \<open>[1,2,3]\<close>, and on the set of \<open>[1]\<close>.\<close>

theorem equals_same_keys_witness:
  "[JNum 1, JNum 1, JNum 2] \<noteq> []
   \<and> key_of (uid uid_init) ` set [JNum 1, JNum 1, JNum 2] = key_of (uid uid_init) ` set [JNum 1, JNum 2, JNum 2]
   \<and> Set_equals uid_init [JNum 1, JNum 1, JNum 2] [JNum 1, JNum 2, JNum 2]
   \<and> key_of (uid uid_init) ` set [JNum 1, JNum 1, JNum 2] \<noteq> key_of (uid uid_init) ` set [JNum 1, JNum 2, JNum 3]
   \<and> \<not> Set_equals uid_init [JNum 1, JNum 1, JNum 2] [JNum 1, JNum 2, JNum 3]
   \<and> hist (Set_new [JNum 1] None) \<noteq> []
   \<and> fst (equals (Set_new [JNum 1] None) (SetArg (Set_new [JNum 1] None)) uid_init)"
proof -
  have k1: "key_of (uid uid_init) ` set [JNum 1, JNum 1, JNum 2] = key_of (uid uid_init) ` set [JNum 1, JNum 2, JNum 2]"
    by code_simp
  have k2: "key_of (uid uid_init) ` set [JNum 1, JNum 1, JNum 2] \<noteq> key_of (uid uid_init) ` set [JNum 1, JNum 2, JNum 3]"
    by code_simp
  have h: "hist (Set_new [JNum 1] None) \<noteq> []"
    by code_simp
  from k1 k2 h
    equals_same_keys [of "[JNum 1, JNum 1, JNum 2]" "[JNum 1, JNum 2, JNum 2]" uid_init "Set_new [JNum 1] None"]
    equals_same_keys [of "[JNum 1, JNum 1, JNum 2]" "[JNum 1, JNum 2, JNum 3]" uid_init]
  show ?thesis
    by simp
qed

text \<open>
  C3 (as the claim states it) fails: the sets of \<open>[2]\<close> and \<open>['2']\<close> are equal, and their
  \<open>keyify\<close> strings differ, because \<open>keyify\<close> writes the type code of each item.
\<close>

theorem equals_keyify_counterexample:
  "fst (equals (Set_new [JNum 2] None) (SetArg (Set_new [JStr ''2''] None)) uid_init)
   \<and> Set_equals uid_init [JNum 2] [JStr ''2'']
   \<and> keyify (Set_new [JNum 2] None) = ''{2:4}''
   \<and> keyify (Set_new [JStr ''2''] None) = ''{2:5}''"
  by code_simp

text \<open>
  Two empty sets are not reported equal: the loop of \<open>equals\<close> never runs and \<open>min\<close> stays
  \<open>Infinity\<close>.
\<close>

lemma equals_empty_sets:
  "\<not> Set_equals uid_init [] []
   \<and> \<not> fst (equals (Set_new [] None) (SetArg (Set_new [] None)) uid_init)
   \<and> keyify (Set_new [] None) = ''{}''"
  by code_simp

section \<open>The receiver of a set operation\<close>

text \<open>
  C10 (as the code has it). On a set that has not been made mutable, \<open>union\<close>,
  \<open>intersection\<close>, \<open>difference\<close> and \<open>complement\<close> leave the receiver as it is, and
  \<open>equals\<close> leaves it as it is in any case. On a mutable set each of the four operations
  ends with \<open>clear(result)\<close>: the old entries are dropped and the values of the result
  array are added again under the set's own key function (its \<open>hashFn\<close>, or the identity),
  so that the entry of a key is the first value of the result with that key, with count 1,
  and \<open>hashFn\<close> and \<open>mutable\<close> stay. When the set has a \<open>hashFn\<close>, or the active key
  function is the identity, the operation ran under the set's own key function and the
  items of the set are then the values of the result array, each once.
\<close>

theorem process_receiver:
  "(\<not> mutable s \<longrightarrow>
      fst (snd (union_set s c g)) = s \<and> fst (snd (intersection s c g)) = s
      \<and> fst (snd (difference s c g)) = s \<and> fst (snd (complement s c g)) = s)
   \<and> fst (snd (equals s c g)) = s
   \<and> (mutable s \<longrightarrow>
        fst (snd (union_set s c g)) = clear s (Some (out_of (fst (union_set s c g))))
      \<and> fst (snd (intersection s c g)) = clear s (Some (out_of (fst (intersection s c g))))
      \<and> fst (snd (difference s c g)) = clear s (Some (out_of (fst (difference s c g))))
      \<and> fst (snd (complement s c g)) = clear s (Some (out_of (fst (complement s c g)))))
   \<and> hist (clear s (Some xs)) = foldl (process_a (this_uid s)) [] xs
   \<and> distinct (map fst (hist (clear s (Some xs))))
   \<and> map_of (hist (clear s (Some xs))) k =
        map_option (\<lambda>v. \<lparr>item = v, freq = 1\<rparr>)
          (find (\<lambda>v. toStr (case hashFn s of None \<Rightarrow> v | Some f \<Rightarrow> f v) = k) xs)
   \<and> hashFn (clear s (Some xs)) = hashFn s
   \<and> mutable (clear s (Some xs)) = mutable s
   \<and> (mutable s \<and> (hashFn s \<noteq> None \<or> uid g = identity_uid) \<longrightarrow>
        mset (items (fst (snd (union_set s c g)))) = mset (out_of (fst (union_set s c g)))
      \<and> mset (items (fst (snd (intersection s c g)))) = mset (out_of (fst (intersection s c g)))
      \<and> mset (items (fst (snd (difference s c g)))) = mset (out_of (fst (difference s c g)))
      \<and> mset (items (fst (snd (complement s c g)))) = mset (out_of (fst (complement s c g))))"
proof -
  have 1: "\<not> mutable s \<longrightarrow>
      fst (snd (union_set s c g)) = s \<and> fst (snd (intersection s c g)) = s
      \<and> fst (snd (difference s c g)) = s \<and> fst (snd (complement s c g)) = s"
    by (simp add: union_set_def intersection_def difference_def complement_def
        receiver_process_Some)
  have 2: "mutable s \<longrightarrow>
        fst (snd (union_set s c g)) = clear s (Some (out_of (fst (union_set s c g))))
      \<and> fst (snd (intersection s c g)) = clear s (Some (out_of (fst (intersection s c g))))
      \<and> fst (snd (difference s c g)) = clear s (Some (out_of (fst (difference s c g))))
      \<and> fst (snd (complement s c g)) = clear s (Some (out_of (fst (complement s c g))))"
    by (simp add: union_set_def intersection_def difference_def complement_def
        receiver_process_Some)
  have own: "hashFn s \<noteq> None \<or> uid g = identity_uid \<Longrightarrow> active_uid s g = this_uid s"
    by (cases "hashFn s") (auto simp: active_uid_def this_uid_def identity_uid_def)
  have 3: "mutable s \<and> (hashFn s \<noteq> None \<or> uid g = identity_uid) \<longrightarrow>
        mset (items (fst (snd (union_set s c g)))) = mset (out_of (fst (union_set s c g)))
      \<and> mset (items (fst (snd (intersection s c g)))) = mset (out_of (fst (intersection s c g)))
      \<and> mset (items (fst (snd (difference s c g)))) = mset (out_of (fst (difference s c g)))
      \<and> mset (items (fst (snd (complement s c g)))) = mset (out_of (fst (complement s c g)))"
    unfolding union_set_def intersection_def difference_def complement_def
    using mset_after_process [of s g c] own by blast
  have ky: "key_of (this_uid s) v = toStr (case hashFn s of None \<Rightarrow> v | Some f \<Rightarrow> f v)" for v
    by (simp add: key_of_def this_uid_def split: option.splits)
  have 4: "map_of (hist (clear s (Some xs))) k =
        map_option (\<lambda>v. \<lparr>item = v, freq = 1\<rparr>)
          (find (\<lambda>v. toStr (case hashFn s of None \<Rightarrow> v | Some f \<Rightarrow> f v) = k) xs)"
    using map_of_foldl_process_a [of "this_uid s" "[]" xs k] by (simp add: hist_clear ky)
  have 5: "distinct (map fst (hist (clear s (Some xs))))"
    using distinct_foldl_process_a [of "[]" "this_uid s" xs] by (simp add: hist_clear)
  from 1 2 3 4 5 receiver_equals [of s c g] hist_clear [of s xs] clear_fields [of s "Some xs"]
  show ?thesis
    by blast
qed

text \<open>
  C10 on the set of \<open>[1,2]\<close> and the array \<open>[2,3]\<close>, with no key function pushed:
  unchanged by \<open>union\<close> when not mutable, and holding \<open>2\<close> alone after \<open>intersection\<close> when
  mutable.
\<close>

theorem process_receiver_witness:
  "\<not> mutable (Set_new [JNum 1, JNum 2] None)
   \<and> fst (snd (union_set (Set_new [JNum 1, JNum 2] None) (ArrayArg [JNum 2, JNum 3]) uid_init)) =
       Set_new [JNum 1, JNum 2] None
   \<and> mutable (set_mutable (Set_new [JNum 1, JNum 2] None))
   \<and> uid uid_init = identity_uid
   \<and> fst (snd (intersection (set_mutable (Set_new [JNum 1, JNum 2] None))
         (ArrayArg [JNum 2, JNum 3]) uid_init)) =
       clear (set_mutable (Set_new [JNum 1, JNum 2] None))
         (Some (out_of (fst (intersection (set_mutable (Set_new [JNum 1, JNum 2] None))
            (ArrayArg [JNum 2, JNum 3]) uid_init))))
   \<and> mset (items (fst (snd (intersection (set_mutable (Set_new [JNum 1, JNum 2] None))
         (ArrayArg [JNum 2, JNum 3]) uid_init)))) =
       mset (out_of (fst (intersection (set_mutable (Set_new [JNum 1, JNum 2] None))
         (ArrayArg [JNum 2, JNum 3]) uid_init)))
   \<and> fst (intersection (set_mutable (Set_new [JNum 1, JNum 2] None))
         (ArrayArg [JNum 2, JNum 3]) uid_init) = Out [JNum 2]
   \<and> hist (fst (snd (intersection (set_mutable (Set_new [JNum 1, JNum 2] None))
         (ArrayArg [JNum 2, JNum 3]) uid_init))) = [(''2'', \<lparr>item = JNum 2, freq = 1\<rparr>)]"
proof -
  let ?s = "Set_new [JNum 1, JNum 2] None"
  let ?m = "set_mutable ?s"
  let ?c = "ArrayArg [JNum 2, JNum 3]"
  have n: "\<not> mutable ?s"
    by (simp add: Set_new_def add_fields)
  have m: "mutable ?m"
    by (simp add: set_mutable_def)
  have a: "uid uid_init = identity_uid"
    by (simp add: uid_init_def)
  note t1 = process_receiver [where s = ?s and c = ?c and g = uid_init]
  note t2 = process_receiver [where s = ?m and c = ?c and g = uid_init]
  from t1 n have 1: "fst (snd (union_set ?s ?c uid_init)) = ?s"
    by blast
  from t2 m have 2: "fst (snd (intersection ?m ?c uid_init)) =
      clear ?m (Some (out_of (fst (intersection ?m ?c uid_init))))"
    by blast
  from t2 m a have 3: "mset (items (fst (snd (intersection ?m ?c uid_init)))) =
      mset (out_of (fst (intersection ?m ?c uid_init)))"
    by blast
  have 4: "fst (intersection ?m ?c uid_init) = Out [JNum 2]"
    by code_simp
  have 5: "hist (fst (snd (intersection ?m ?c uid_init))) = [(''2'', \<lparr>item = JNum 2, freq = 1\<rparr>)]"
    by code_simp
  from n m a 1 2 3 4 5 show ?thesis
    by blast
qed

text \<open>
  C10 (as the claim states it) fails: after \<open>Set.pushUid\<close> of a function that returns
  \<open>this.id\<close>, the mutable set of \<open>[{id: 1}]\<close>, which has no \<open>hashFn\<close>, returns both objects
  from \<open>union([{id: 2}])\<close> and is left with the first one only, since the two objects have
  the same key \<open>[object Object]\<close> under the set's own key function.
\<close>

theorem process_receiver_counterexample:
  "fst (union_set (set_mutable (Set_new [JObject None [(''id'', JNum 1)]] None))
         (ArrayArg [JObject None [(''id'', JNum 2)]]) (snd (pushUid get_id uid_init))) =
     Out [JObject None [(''id'', JNum 1)], JObject None [(''id'', JNum 2)]]
   \<and> items (fst (snd (union_set (set_mutable (Set_new [JObject None [(''id'', JNum 1)]] None))
         (ArrayArg [JObject None [(''id'', JNum 2)]]) (snd (pushUid get_id uid_init))))) =
     [JObject None [(''id'', JNum 1)]]
   \<and> mutable (set_mutable (Set_new [JObject None [(''id'', JNum 1)]] None))"
  by code_simp

section \<open>Concrete scenarios\<close>

text \<open>
  C6 (as the code has it). \<open>Set.intersection([1,1,2],[2,2,3])\<close> returns \<open>[2]\<close> and
  \<open>Set.difference([1,1,2],[2,3,3])\<close> returns \<open>[1,3]\<close>; \<open>Set.complement([1,2,2],[2,2,3])\<close>
  returns \<open>[1]\<close>, the items of the first array that are not in the second.
\<close>

theorem scenario_3_static:
  "Set_intersection uid_init [JNum 1, JNum 1, JNum 2] [JNum 2, JNum 2, JNum 3] = [JNum 2]
   \<and> Set_difference uid_init [JNum 1, JNum 1, JNum 2] [JNum 2, JNum 3, JNum 3] = [JNum 1, JNum 3]
   \<and> Set_complement uid_init [JNum 1, JNum 2, JNum 2] [JNum 2, JNum 2, JNum 3] = [JNum 1]"
  by code_simp

text \<open>
  C6 (as the claim states it) fails: \<open>Set.complement([1,2,2],[2,2,3])\<close> is not \<open>[3]\<close>.
\<close>

theorem scenario_3_complement_counterexample:
  "Set_complement uid_init [JNum 1, JNum 2, JNum 2] [JNum 2, JNum 2, JNum 3] \<noteq> [JNum 3]"
  by code_simp

text \<open>
  C7 at a failing input: after \<open>add(0)\<close>, \<open>add('')\<close> or \<open>add(false)\<close> the set holds an
  entry for the value (it has size 1 and lists the value among its items), and \<open>has\<close> of
  that value returns false.
\<close>

theorem has_falsy_item:
  "has (add (Set_new [] None) [JNum 0]) (JNum 0) = False
   \<and> items (add (Set_new [] None) [JNum 0]) = [JNum 0]
   \<and> has (add (Set_new [] None) [JStr []]) (JStr []) = False
   \<and> items (add (Set_new [] None) [JStr []]) = [JStr []]
   \<and> has (add (Set_new [] None) [JBool False]) (JBool False) = False
   \<and> items (add (Set_new [] None) [JBool False]) = [JBool False]"
  by code_simp

end
